theory Spec2Isabelle
  imports Main "HOL-Library.Sublist" "HOL-Library.Multiset"
begin

section \<open>Client-side product search engine (Trie, fuzzy matching, relevance ranking)\<close>

text \<open>
  A shallow embedding of the classes \<open>TrieNode\<close>, \<open>Trie\<close> and \<open>SearchEngine\<close> of
  \<open>backend/static/frontend/js/app.js\<close> (lines 7 to 224).

  Conventions of the embedding.
  \<^item> A JavaScript string is a list of code units. The model keeps the code units
    \<open>0..255\<close> (the Latin-1 range of UTF-16), which is the type \<open>char\<close>; there
    \<open>toLowerCase\<close> maps code unit to code unit, and iterating a string by code point
    (\<open>for (const char of s)\<close>) is iterating its code units.
  \<^item> A field that may be missing on a product object (\<open>undefined\<close>) is an \<open>option\<close>.
    Identifiers are natural numbers: the engine only compares them for equality.
  \<^item> A thrown exception is a value: \<open>Inl TypeError\<close>.
  \<^item> The engine object is a record that is passed in and returned.
  \<^item> \<open>String.prototype.localeCompare\<close> is a function of the host, whose order the
    language standard leaves to the implementation: it is a parameter of \<open>search\<close>.
\<close>

subsection \<open>Strings\<close>

text \<open>The characters matched by the regular expression class \<open>\s\<close>, and stripped by
  \<open>trim\<close>: tab, line feed, vertical tab, form feed, carriage return, space, no-break space.\<close>

definition isWhiteSpace :: "char \<Rightarrow> bool" where
  "isWhiteSpace c =
     (c \<in> set [CHR 0x09, CHR 0x0A, CHR 0x0B, CHR 0x0C, CHR 0x0D, CHR 0x20, CHR 0xA0])"

text \<open>\<open>toLowerCase\<close> on one code unit: \<open>A..Z\<close> and the capital letters \<open>0xC0..0xDE\<close>
  (without the multiplication sign \<open>0xD7\<close>) move up by 32.\<close>

definition lowerChar :: "char \<Rightarrow> char" where
  "lowerChar c =
     (let n = (of_char c :: nat)
      in if (65 \<le> n \<and> n \<le> 90) \<or> (192 \<le> n \<and> n \<le> 222 \<and> n \<noteq> 215)
         then char_of (n + 32) else c)"

definition toLowerCase :: "string \<Rightarrow> string" where
  "toLowerCase s = map lowerChar s"

definition trim :: "string \<Rightarrow> string" where
  "trim s = rev (dropWhile isWhiteSpace (rev (dropWhile isWhiteSpace s)))"

text \<open>\<open>s.startsWith(q)\<close> and \<open>s.includes(q)\<close>.\<close>

fun startsWith :: "string \<Rightarrow> string \<Rightarrow> bool" where
  "startsWith s [] = True"
| "startsWith [] (q # qs) = False"
| "startsWith (c # cs) (q # qs) = (c = q \<and> startsWith cs qs)"

fun includes_str :: "string \<Rightarrow> string \<Rightarrow> bool" where
  "includes_str [] q = (q = [])"
| "includes_str (c # cs) q = (startsWith (c # cs) q \<or> includes_str cs q)"

text \<open>
  \<open>s.split(/\s+/)\<close>. The standard's algorithm scans \<open>s\<close> for the separator; every match
  closes the piece collected so far (also when that piece is empty, which happens at a
  leading separator), and the end of the string closes the last piece (also when it is
  empty). \<open>split_from tok s\<close> is the scan with \<open>tok\<close> the piece collected so far.
\<close>

function split_from :: "string \<Rightarrow> string \<Rightarrow> string list" where
  "split_from tok [] = [tok]"
| "split_from tok (c # cs) =
     (if isWhiteSpace c then tok # split_from [] (dropWhile isWhiteSpace cs)
      else split_from (tok @ [c]) cs)"
  by pat_completeness auto
termination
  by (relation "measure (\<lambda>(tok, s). length s)")
     (auto simp: length_dropWhile_le less_Suc_eq_le)

definition split_ws :: "string \<Rightarrow> string list" where
  "split_ws s = split_from [] s"

text \<open>The tokenization used throughout the engine:
  \<open>const nameWords = product.name.toLowerCase().split(/\s+/)\<close>.\<close>

definition nameWords :: "string \<Rightarrow> string list" where
  "nameWords s = split_ws (toLowerCase s)"

subsection \<open>Products\<close>

text \<open>The four fields of a product object that the engine reads. \<open>ident\<close> is the field
  \<open>id\<close>.\<close>

record product =
  ident :: "nat option"
  name :: "string option"
  category :: "string option"
  sku :: "string option"

datatype error = TypeError

text \<open>\<open>if (product.category)\<close>: a missing field and the empty string are both falsy.
  \<open>(product.category || '')\<close> is the field, or the empty string when it is falsy.\<close>

definition truthy :: "string option \<Rightarrow> bool" where
  "truthy v = (case v of None \<Rightarrow> False | Some s \<Rightarrow> s \<noteq> [])"

definition or_empty :: "string option \<Rightarrow> string" where
  "or_empty v = (case v of None \<Rightarrow> [] | Some s \<Rightarrow> s)"

subsection \<open>Trie\<close>

datatype trie =
  TrieNode (children: "char \<Rightarrow> trie option") (isEndOfWord: bool) (node_products: "product list")

definition new_TrieNode :: trie where
  "new_TrieNode = TrieNode (\<lambda>c. None) False []"

text \<open>\<open>if (!node.products.find(p => p.id === product.id)) node.products.push(product)\<close>\<close>

definition add_product :: "product \<Rightarrow> product list \<Rightarrow> product list" where
  "add_product p ps = (if find (\<lambda>q. ident q = ident p) ps = None then ps @ [p] else ps)"

text \<open>The loop of \<open>Trie.insert\<close>, from the node it has reached, over the characters that
  are left; at the end of the word the node is marked.\<close>

fun insert_at :: "trie \<Rightarrow> string \<Rightarrow> product \<Rightarrow> trie" where
  "insert_at (TrieNode ch e ps) [] p = TrieNode ch True ps"
| "insert_at (TrieNode ch e ps) (c # cs) p =
     (let child = (case ch c of None \<Rightarrow> new_TrieNode | Some n \<Rightarrow> n);
          child' = TrieNode (children child) (isEndOfWord child)
                     (add_product p (node_products child))
      in TrieNode (ch(c \<mapsto> insert_at child' cs p)) e ps)"

definition trie_insert :: "trie \<Rightarrow> string \<Rightarrow> product \<Rightarrow> trie" where
  "trie_insert root word p = insert_at root (toLowerCase word) p"

fun search_at :: "trie \<Rightarrow> string \<Rightarrow> product list" where
  "search_at node [] = node_products node"
| "search_at node (c # cs) =
     (case children node c of None \<Rightarrow> [] | Some n \<Rightarrow> search_at n cs)"

definition trie_search :: "trie \<Rightarrow> string \<Rightarrow> product list" where
  "trie_search root pre = search_at root (toLowerCase pre)"

subsection \<open>Inverted index\<close>

text \<open>A \<open>Map\<close> from terms to \<open>Set\<close>s of identifiers; both keep insertion order.\<close>

type_synonym index = "(string \<times> nat option list) list"

definition set_add :: "'a \<Rightarrow> 'a list \<Rightarrow> 'a list" where
  "set_add x xs = (if x \<in> set xs then xs else xs @ [x])"

fun addToIndex :: "index \<Rightarrow> string \<Rightarrow> product \<Rightarrow> index" where
  "addToIndex [] term p = [(term, [ident p])]"
| "addToIndex ((t, ids) # rest) term p =
     (if t = term then (t, set_add (ident p) ids) # rest
      else (t, ids) # addToIndex rest term p)"

subsection \<open>The engine and \<open>buildIndex\<close>\<close>

record engine =
  trie :: trie
  products :: "product list"
  searchIndex :: index

definition new_SearchEngine :: engine where
  "new_SearchEngine = \<lparr>trie = new_TrieNode, products = [], searchIndex = []\<rparr>"

text \<open>The body of \<open>products.forEach\<close> in \<open>buildIndex\<close>. Reading \<open>product.name.toLowerCase()\<close>
  on a product without a name throws, before anything is inserted for that product.\<close>

definition index_word :: "product \<Rightarrow> string \<Rightarrow> engine \<Rightarrow> engine" where
  "index_word p word e =
     e\<lparr>trie := trie_insert (trie e) word p, searchIndex := addToIndex (searchIndex e) word p\<rparr>"

definition index_product :: "product \<Rightarrow> engine \<Rightarrow> error + engine" where
  "index_product p e =
     (case name p of
        None \<Rightarrow> Inl TypeError
      | Some nm \<Rightarrow>
          let e1 = fold (index_word p) (nameWords nm) e;
              e2 = e1\<lparr>trie := trie_insert (trie e1) nm p\<rparr>;
              e3 = (if truthy (category p)
                    then e2\<lparr>trie := trie_insert (trie e2) (or_empty (category p)) p,
                            searchIndex := addToIndex (searchIndex e2)
                                             (toLowerCase (or_empty (category p))) p\<rparr>
                    else e2);
              e4 = (if truthy (sku p)
                    then e3\<lparr>trie := trie_insert (trie e3) (or_empty (sku p)) p\<rparr>
                    else e3)
          in Inr e4)"

text \<open>\<open>forEach\<close> over the products: an exception leaves the loop, and the engine stays as
  the products before had left it. The result is the exception, if any, and the engine.\<close>

fun index_all :: "product list \<Rightarrow> engine \<Rightarrow> error option \<times> engine" where
  "index_all [] e = (None, e)"
| "index_all (p # ps) e =
     (case index_product p e of
        Inl err \<Rightarrow> (Some err, e)
      | Inr e' \<Rightarrow> index_all ps e')"

definition buildIndex :: "product list \<Rightarrow> engine \<Rightarrow> error option \<times> engine" where
  "buildIndex ps e =
     index_all ps (e\<lparr>products := ps, trie := new_TrieNode, searchIndex := []\<rparr>)"

subsection \<open>Levenshtein distance\<close>

text \<open>The inner loop \<open>for (let j = 1; j <= n; j++)\<close> on the rows \<open>prev\<close> and \<open>curr\<close>
  (here \<open>cur\<close>), and the outer loop \<open>for (let i = 1; i <= m; i++)\<close>, which sets
  \<open>curr[0] = i\<close>, runs the inner loop and swaps the two rows.\<close>

function lev_inner :: "string \<Rightarrow> string \<Rightarrow> nat \<Rightarrow> nat \<Rightarrow> nat list \<Rightarrow> nat list \<Rightarrow> nat list" where
  "lev_inner str1 str2 i j prev cur =
     (if j \<le> length str2
      then lev_inner str1 str2 i (j + 1) prev
             (cur[j := (if str1 ! (i - 1) = str2 ! (j - 1) then prev ! (j - 1)
                        else 1 + min (prev ! (j - 1)) (min (prev ! j) (cur ! (j - 1))))])
      else cur)"
  by pat_completeness auto
termination
  by (relation "measure (\<lambda>(str1, str2, i, j, prev, cur). length str2 + 1 - j)") auto

function lev_outer :: "string \<Rightarrow> string \<Rightarrow> nat \<Rightarrow> nat list \<Rightarrow> nat list \<Rightarrow> nat list" where
  "lev_outer str1 str2 i prev cur =
     (if i \<le> length str1
      then lev_outer str1 str2 (i + 1) (lev_inner str1 str2 i 1 prev (cur[0 := i])) prev
      else prev)"
  by pat_completeness auto
termination
  by (relation "measure (\<lambda>(str1, str2, i, prev, cur). length str1 + 1 - i)") auto

definition levenshteinDistance :: "string \<Rightarrow> string \<Rightarrow> nat" where
  "levenshteinDistance str1 str2 =
     (let n = length str2;
          prev = map (\<lambda>i. i) [0..<n + 1];
          cur = replicate (n + 1) 0
      in lev_outer str1 str2 1 prev cur ! n)"

subsection \<open>Relevance score\<close>

text \<open>\<open>Math.min(...xs)\<close>; \<open>None\<close> is \<open>Infinity\<close>, the result on no arguments.\<close>

fun math_min :: "nat list \<Rightarrow> nat option" where
  "math_min [] = None"
| "math_min (x # xs) = (case math_min xs of None \<Rightarrow> Some x | Some m \<Rightarrow> Some (min x m))"

definition word_bonus :: "string \<Rightarrow> string \<Rightarrow> int \<Rightarrow> int" where
  "word_bonus qWord nWord score =
     (if nWord = qWord then score + 20
      else if startsWith nWord qWord then score + 10
      else score)"

definition calculateScore :: "product \<Rightarrow> string \<Rightarrow> error + int" where
  "calculateScore p query =
     (case name p of
        None \<Rightarrow> Inl TypeError
      | Some nm \<Rightarrow>
          let lowerQuery = toLowerCase query;
              lowerName = toLowerCase nm;
              lowerCategory = toLowerCase (or_empty (category p));
              score0 = (0 :: int);
              score1 = (if lowerName = lowerQuery then score0 + 100 else score0);
              score2 = (if startsWith lowerName lowerQuery then score1 + 50 else score1);
              score3 = (if includes_str lowerName lowerQuery then score2 + 30 else score2);
              queryWords = split_ws lowerQuery;
              nWords = split_ws lowerName;
              score4 = fold (\<lambda>qWord. fold (word_bonus qWord) nWords) queryWords score3;
              score5 = (if includes_str lowerCategory lowerQuery then score4 + 15 else score4);
              minDistance = math_min (map (\<lambda>word. levenshteinDistance lowerQuery word) nWords);
              score6 = (case minDistance of
                          None \<Rightarrow> score5
                        | Some d \<Rightarrow> if d \<le> 2 then score5 + (3 - int d) * 5 else score5)
          in Inr score6)"

subsection \<open>\<open>search\<close>\<close>

text \<open>The argument \<open>limit\<close> is a JavaScript number: the model keeps the integers and the
  three values that are not finite.\<close>

datatype limit = Finite int | PosInfinity | NegInfinity | NaN

text \<open>\<open>results.size < limit\<close> and \<open>scoredResults.slice(0, limit)\<close>. In \<open>slice\<close> a negative
  end counts from the end of the array, \<open>NaN\<close> is 0.\<close>

fun size_lt :: "nat \<Rightarrow> limit \<Rightarrow> bool" where
  "size_lt n (Finite k) = (int n < k)"
| "size_lt n PosInfinity = True"
| "size_lt n NegInfinity = False"
| "size_lt n NaN = False"

fun slice0 :: "'a list \<Rightarrow> limit \<Rightarrow> 'a list" where
  "slice0 xs (Finite k) =
     (if k < 0 then take (nat (int (length xs) + k)) xs else take (nat k) xs)"
| "slice0 xs PosInfinity = xs"
| "slice0 xs NegInfinity = []"
| "slice0 xs NaN = []"

text \<open>The \<open>Map\<close> \<open>results\<close>, from identifiers to products, in insertion order: \<open>set\<close>
  replaces the value of a key that is present and appends a key that is not.\<close>

type_synonym results = "(nat option \<times> product) list"

fun map_set :: "nat option \<Rightarrow> product \<Rightarrow> results \<Rightarrow> results" where
  "map_set k v [] = [(k, v)]"
| "map_set k v ((k', v') # m) = (if k' = k then (k, v) # m else (k', v') # map_set k v m)"

definition map_has :: "nat option \<Rightarrow> results \<Rightarrow> bool" where
  "map_has k m = (k \<in> set (map fst m))"

text \<open>Step 1 of \<open>search\<close>: the products of the Trie node of the query, keyed by identifier.\<close>

definition trie_candidates :: "engine \<Rightarrow> string \<Rightarrow> results" where
  "trie_candidates e trimmedQuery =
     fold (\<lambda>p res. map_set (ident p) p res) (trie_search (trie e) trimmedQuery) []"

text \<open>Step 2: the tests of the augmentation pass on one product, and the pass.\<close>

definition isFuzzyMatch :: "string \<Rightarrow> string \<Rightarrow> bool" where
  "isFuzzyMatch queryLower nameLower =
     list_ex (\<lambda>word. levenshteinDistance queryLower word \<le> max 1 (length queryLower div 3))
       (split_ws nameLower)"

definition isPartialMatch :: "string \<Rightarrow> string \<Rightarrow> string \<Rightarrow> bool" where
  "isPartialMatch queryLower nameLower categoryLower =
     (includes_str nameLower queryLower \<or> includes_str categoryLower queryLower)"

fun augment :: "string \<Rightarrow> product list \<Rightarrow> results \<Rightarrow> error + results" where
  "augment queryLower [] res = Inr res"
| "augment queryLower (p # ps) res =
     (if map_has (ident p) res then augment queryLower ps res
      else case name p of
        None \<Rightarrow> Inl TypeError
      | Some nm \<Rightarrow>
          let nameLower = toLowerCase nm;
              categoryLower = toLowerCase (or_empty (category p))
          in if isFuzzyMatch queryLower nameLower
                \<or> isPartialMatch queryLower nameLower categoryLower
             then augment queryLower ps (map_set (ident p) p res)
             else augment queryLower ps res)"

definition candidates :: "engine \<Rightarrow> string \<Rightarrow> limit \<Rightarrow> error + results" where
  "candidates e trimmedQuery lim =
     (let res = trie_candidates e trimmedQuery
      in if size_lt (length res) lim
         then augment (toLowerCase trimmedQuery) (products e) res
         else Inr res)"

text \<open>Step 3: \<open>{...product, searchScore: this.calculateScore(product, trimmedQuery)}\<close>.\<close>

record scored =
  item :: product
  searchScore :: int

fun score_all :: "string \<Rightarrow> product list \<Rightarrow> error + scored list" where
  "score_all q [] = Inr []"
| "score_all q (p # ps) =
     (case calculateScore p q of
        Inl err \<Rightarrow> Inl err
      | Inr s \<Rightarrow>
          (case score_all q ps of
             Inl err \<Rightarrow> Inl err
           | Inr rest \<Rightarrow> Inr (\<lparr>item = p, searchScore = s\<rparr> # rest)))"

text \<open>The comparison function given to \<open>sort\<close>. Every scored product has a name, since
  \<open>calculateScore\<close> has read it.\<close>

definition compare_scored :: "(string \<Rightarrow> string \<Rightarrow> int) \<Rightarrow> scored \<Rightarrow> scored \<Rightarrow> int" where
  "compare_scored localeCompare a b =
     (if searchScore b \<noteq> searchScore a then searchScore b - searchScore a
      else localeCompare (or_empty (name (item a))) (or_empty (name (item b))))"

text \<open>\<open>Array.prototype.sort\<close> is stable. Under a consistent comparison function every
  stable sorting algorithm returns the same array; the model is insertion sort.\<close>

fun insort_by :: "('a \<Rightarrow> 'a \<Rightarrow> int) \<Rightarrow> 'a \<Rightarrow> 'a list \<Rightarrow> 'a list" where
  "insort_by cmp x [] = [x]"
| "insort_by cmp x (y # ys) = (if cmp x y \<le> 0 then x # y # ys else y # insort_by cmp x ys)"

definition array_sort :: "('a \<Rightarrow> 'a \<Rightarrow> int) \<Rightarrow> 'a list \<Rightarrow> 'a list" where
  "array_sort cmp xs = foldr (insort_by cmp) xs []"

text \<open>\<open>search(query, limit = 10)\<close>: the default value stands for a missing argument.\<close>

definition search ::
  "(string \<Rightarrow> string \<Rightarrow> int) \<Rightarrow> engine \<Rightarrow> string \<Rightarrow> limit option \<Rightarrow> error + scored list" where
  "search localeCompare e query limit_arg =
     (let lim = (case limit_arg of None \<Rightarrow> Finite 10 | Some l \<Rightarrow> l)
      in if query = [] \<or> length (trim query) = 0 then Inr []
         else
           let trimmedQuery = trim query
           in case candidates e trimmedQuery lim of
                Inl err \<Rightarrow> Inl err
              | Inr res \<Rightarrow>
                  (case score_all trimmedQuery (map snd res) of
                     Inl err \<Rightarrow> Inl err
                   | Inr scoredResults \<Rightarrow>
                       Inr (slice0 (array_sort (compare_scored localeCompare) scoredResults)
                              lim)))"

subsection \<open>Notions of the specification\<close>

text \<open>
  The Levenshtein distance of the specification: \<open>single_edit a b\<close> holds when \<open>b\<close> is
  \<open>a\<close> with one character inserted, deleted or substituted, at any position;
  \<open>edits n a b\<close> holds when \<open>n\<close> such edits, one after the other, turn \<open>a\<close> into \<open>b\<close>.
  The distance of \<open>a\<close> and \<open>b\<close> is the least such \<open>n\<close>.
\<close>

inductive single_edit :: "string \<Rightarrow> string \<Rightarrow> bool" where
  insertion: "single_edit (u @ v) (u @ [x] @ v)"
| deletion: "single_edit (u @ [x] @ v) (u @ v)"
| substitution: "single_edit (u @ [x] @ v) (u @ [y] @ v)"

definition edits :: "nat \<Rightarrow> string \<Rightarrow> string \<Rightarrow> bool" where
  "edits n a b = (single_edit ^^ n) a b"

definition distance :: "string \<Rightarrow> string \<Rightarrow> nat" where
  "distance a b = (LEAST n. edits n a b)"

text \<open>
  Edit scripts, for the proofs: \<open>edit a b n\<close> holds when \<open>a\<close> is turned into \<open>b\<close> by a
  script that reads both strings from the left and keeps a character, substitutes one
  character for another, deletes a character of \<open>a\<close> or inserts a character of \<open>b\<close>;
  \<open>n\<close> counts the substitutions, deletions and insertions.
\<close>

inductive edit :: "string \<Rightarrow> string \<Rightarrow> nat \<Rightarrow> bool" where
  Done: "edit [] [] 0"
| Keep: "edit xs ys n \<Longrightarrow> edit (x # xs) (x # ys) n"
| Subst: "edit xs ys n \<Longrightarrow> edit (x # xs) (y # ys) (Suc n)"
| Delete: "edit xs ys n \<Longrightarrow> edit (x # xs) ys (Suc n)"
| Insert: "edit xs ys n \<Longrightarrow> edit xs (y # ys) (Suc n)"

text \<open>The recurrence of the dynamic program, on whole strings; and the entry of row
  \<open>i\<close>, column \<open>j\<close> of its table, which is about the first \<open>i\<close> and \<open>j\<close> characters.\<close>

fun lev :: "string \<Rightarrow> string \<Rightarrow> nat" where
  "lev [] ys = length ys"
| "lev (x # xs) [] = Suc (length xs)"
| "lev (x # xs) (y # ys) =
     (if x = y then lev xs ys
      else 1 + min (lev xs ys) (min (lev xs (y # ys)) (lev (x # xs) ys)))"

definition prefix_dist :: "string \<Rightarrow> string \<Rightarrow> nat \<Rightarrow> nat \<Rightarrow> nat" where
  "prefix_dist a b i j = lev (rev (take i a)) (rev (take j b))"

text \<open>The maximal runs of characters that are not white space, from left to right:
  skip the white space, take the characters up to the next white space, go on.\<close>

function runs :: "string \<Rightarrow> string list" where
  "runs s =
     (case dropWhile isWhiteSpace s of
        [] \<Rightarrow> []
      | c # cs \<Rightarrow> (c # takeWhile (\<lambda>x. \<not> isWhiteSpace x) cs)
                  # runs (dropWhile (\<lambda>x. \<not> isWhiteSpace x) cs))"
  by pat_completeness auto
termination
proof (relation "measure length", goal_cases)
  case 1
  show ?case by simp
next
  case (2 s c cs)
  have "length (dropWhile (\<lambda>x. \<not> isWhiteSpace x) cs) \<le> length cs"
    by (rule length_dropWhile_le)
  moreover have "length (dropWhile isWhiteSpace s) \<le> length s"
    by (rule length_dropWhile_le)
  ultimately show ?case using 2 by simp
qed

text \<open>The empty pieces that \<open>split\<close> returns besides the runs: one in front when the
  string is empty or starts with white space, one at the end when the string ends with
  white space.\<close>

definition leading_empty :: "string \<Rightarrow> string list" where
  "leading_empty s = (if s = [] \<or> isWhiteSpace (hd s) then [[]] else [])"

definition trailing_empty :: "string \<Rightarrow> string list" where
  "trailing_empty s = (if s \<noteq> [] \<and> isWhiteSpace (last s) then [[]] else [])"

text \<open>The pieces that \<open>split(/\s+/)\<close> returns: the runs, with the empty pieces.\<close>

definition pieces :: "string \<Rightarrow> string list" where
  "pieces s = leading_empty s @ runs s @ trailing_empty s"

text \<open>
  The score as the sum of its contributions, for a tokenization \<open>tokens\<close>, on the
  lowercased name \<open>n\<close>, the lowercased query \<open>q\<close> and the lowercased category \<open>c\<close>:
  exact match, name starts with the query, name contains the query, the pairs of a
  query word and a name word, category contains the query, and the fuzzy bonus on the
  least distance between the query and a word of the name (a name without words has no
  least distance, and no bonus). The whitespace-tokens of the specification are the
  \<open>runs\<close>; \<open>split\<close> returns the \<open>pieces\<close>.
\<close>

definition score_formula ::
  "(string \<Rightarrow> string list) \<Rightarrow> string \<Rightarrow> string \<Rightarrow> string \<Rightarrow> int" where
  "score_formula tokens n q c =
     (if n = q then 100 else 0)
   + (if prefix q n then 50 else 0)
   + (if sublist q n then 30 else 0)
   + (\<Sum>qw \<leftarrow> tokens q. \<Sum>nw \<leftarrow> tokens n.
        if nw = qw then 20 else if prefix qw nw then 10 else 0)
   + (if sublist q c then 15 else 0)
   + (if tokens n = [] then 0
      else let d = Min (set (map (distance q) (tokens n)))
           in if d \<le> 2 then (3 - int d) * 5 else 0)"

text \<open>A sequence of calls \<open>trie.insert(word, product)\<close>, in order.\<close>

definition insert_all :: "(string \<times> product) list \<Rightarrow> trie \<Rightarrow> trie" where
  "insert_all ops t = fold (\<lambda>(word, p) t. trie_insert t word p) ops t"

text \<open>The score that \<open>calculateScore\<close> returns for a product with a name, and the object
  that \<open>search\<close> returns for the product.\<close>

definition score_of :: "string \<Rightarrow> product \<Rightarrow> int" where
  "score_of q p = (case calculateScore p q of Inl err \<Rightarrow> 0 | Inr s \<Rightarrow> s)"

definition with_score :: "string \<Rightarrow> product \<Rightarrow> scored" where
  "with_score q p = \<lparr>item = p, searchScore = score_of q p\<rparr>"

text \<open>
  The admission test of the augmentation pass, for a tokenization \<open>tokens\<close>, on the
  lowercased query \<open>lq\<close>: a word of the lowercased name within distance
  \<open>max(1, floor(length / 3))\<close> of the query, or the lowercased name or category
  containing the query.
\<close>

definition admission_test :: "(string \<Rightarrow> string list) \<Rightarrow> string \<Rightarrow> product \<Rightarrow> bool" where
  "admission_test tokens lq p =
     ((\<exists>w \<in> set (tokens (toLowerCase (or_empty (name p)))).
         distance lq w \<le> max 1 (length lq div 3))
      \<or> sublist lq (toLowerCase (or_empty (name p)))
      \<or> sublist lq (toLowerCase (or_empty (category p))))"

text \<open>Of the products of a list that have one identifier, the first; in the order of the
  list.\<close>

fun first_by_ident :: "product list \<Rightarrow> product list" where
  "first_by_ident [] = []"
| "first_by_ident (p # ps) = p # first_by_ident (filter (\<lambda>q. ident q \<noteq> ident p) ps)"

text \<open>
  A consistent comparison function on the values in \<open>A\<close>, as \<open>sort\<close> requires one:
  swapping the arguments swaps the sign, and "not after" is transitive.
\<close>

definition consistent_on :: "'a set \<Rightarrow> ('a \<Rightarrow> 'a \<Rightarrow> int) \<Rightarrow> bool" where
  "consistent_on A cmp =
     ((\<forall>a \<in> A. \<forall>b \<in> A. (cmp a b < 0 \<longleftrightarrow> 0 < cmp b a))
      \<and> (\<forall>a \<in> A. \<forall>b \<in> A. \<forall>c \<in> A. cmp a b \<le> 0 \<and> cmp b c \<le> 0 \<longrightarrow> cmp a c \<le> 0))"

text \<open>The order of the results: higher score first, and among equal scores the display
  name that \<open>lc\<close> puts first. Two results are tied when \<open>lc\<close> does not separate
  their names either.\<close>

definition display_name :: "scored \<Rightarrow> string" where
  "display_name r = or_empty (name (item r))"

definition ranks_before :: "(string \<Rightarrow> string \<Rightarrow> int) \<Rightarrow> scored \<Rightarrow> scored \<Rightarrow> bool" where
  "ranks_before lc a b =
     (searchScore b < searchScore a
      \<or> (searchScore a = searchScore b \<and> lc (display_name a) (display_name b) \<le> 0))"

definition tied :: "(string \<Rightarrow> string \<Rightarrow> int) \<Rightarrow> scored \<Rightarrow> scored \<Rightarrow> bool" where
  "tied lc a b =
     (searchScore a = searchScore b \<and> lc (display_name a) (display_name b) = 0)"

text \<open>Comparison of two strings code unit by code unit, with the sign as result; and
  the order the specification names, case-insensitive lexicographic order.\<close>

fun compare_units :: "string \<Rightarrow> string \<Rightarrow> int" where
  "compare_units [] [] = 0"
| "compare_units [] (y # ys) = - 1"
| "compare_units (x # xs) [] = 1"
| "compare_units (x # xs) (y # ys) =
     (if (of_char x :: nat) < of_char y then - 1
      else if (of_char y :: nat) < of_char x then 1
      else compare_units xs ys)"

definition ci_compare :: "string \<Rightarrow> string \<Rightarrow> int" where
  "ci_compare a b = compare_units (toLowerCase a) (toLowerCase b)"

text \<open>
  A model of \<open>localeCompare\<close> as browsers implement it (the root collation of the
  Unicode Collation Algorithm), for names of ASCII letters, digits and spaces: the
  names are compared without regard to case first; names that differ in case only
  are ordered by their first difference, the lower-case letter first. It instantiates
  the parameter of \<open>search\<close> where the model is evaluated.
\<close>

definition localeCompare_root :: "string \<Rightarrow> string \<Rightarrow> int" where
  "localeCompare_root a b =
     (if toLowerCase a \<noteq> toLowerCase b
      then compare_units (toLowerCase a) (toLowerCase b)
      else compare_units b a)"

subsection \<open>Example catalogs\<close>

text \<open>The products of the scenarios of the specification, used to evaluate the model.\<close>

definition wireless_headphones :: product where
  "wireless_headphones =
     \<lparr>ident = Some 1, name = Some ''Wireless Headphones Pro'',
      category = Some ''Electronics'', sku = None\<rparr>"

definition coffee_maker :: product where
  "coffee_maker =
     \<lparr>ident = Some 1, name = Some ''Coffee Maker Deluxe'', category = None, sku = None\<rparr>"

definition smart_watch :: product where
  "smart_watch = \<lparr>ident = Some 1, name = Some ''Smart Watch'', category = None, sku = None\<rparr>"

definition smart_phone :: product where
  "smart_phone = \<lparr>ident = Some 2, name = Some ''Smart Phone'', category = None, sku = None\<rparr>"

definition nameless :: product where
  "nameless = \<lparr>ident = Some 3, name = None, category = Some ''Electronics'', sku = None\<rparr>"

definition unidentified :: product where
  "unidentified = \<lparr>ident = None, name = Some ''Smart Watch'', category = None, sku = None\<rparr>"

definition apple_upper :: product where
  "apple_upper = \<lparr>ident = Some 1, name = Some ''Apple'', category = None, sku = None\<rparr>"

definition apple_lower :: product where
  "apple_lower = \<lparr>ident = Some 2, name = Some ''apple'', category = None, sku = None\<rparr>"

definition pro_padded :: product where
  "pro_padded = \<lparr>ident = Some 1, name = Some ''Pro '', category = None, sku = None\<rparr>"

definition zebra_mug :: product where
  "zebra_mug = \<lparr>ident = Some 1, name = Some '' Zebra Mug'', category = None, sku = None\<rparr>"

definition headphone :: product where
  "headphone = \<lparr>ident = Some 3, name = Some ''Headphone'', category = None, sku = None\<rparr>"

section \<open>Properties\<close>

subsection \<open>Levenshtein distance\<close>

declare lev_inner.simps [simp del] lev_outer.simps [simp del]

lemma lev_Nil2 [simp]: "lev xs [] = length xs"
  by (cases xs) auto

lemma edit_Nil_left: "edit [] ys (length ys)"
  by (induction ys) (auto intro: edit.intros)

lemma edit_Nil_right: "edit xs [] (length xs)"
  by (induction xs) (auto intro: edit.intros)

text \<open>The recurrence is reached by a script.\<close>

lemma edit_lev: "edit xs ys (lev xs ys)"
proof (induction xs ys rule: lev.induct)
  case (1 ys)
  then show ?case by (simp add: edit_Nil_left)
next
  case (2 x xs)
  then show ?case using edit_Nil_right [of "x # xs"] by simp
next
  case (3 x xs y ys)
  show ?case
  proof (cases "x = y")
    case True
    with 3 show ?thesis by (auto intro: edit.Keep)
  next
    case False
    let ?a = "lev xs ys" and ?b = "lev xs (y # ys)" and ?c = "lev (x # xs) ys"
    from False 3 have a: "edit (x # xs) (y # ys) (Suc ?a)"
      and b: "edit (x # xs) (y # ys) (Suc ?b)"
      and c: "edit (x # xs) (y # ys) (Suc ?c)"
      by (auto intro: edit.intros)
    have "min ?a (min ?b ?c) = ?a \<or> min ?a (min ?b ?c) = ?b \<or> min ?a (min ?b ?c) = ?c"
      by linarith
    with a b c False show ?thesis by auto
  qed
qed

lemma lev_sym: "lev xs ys = lev ys xs"
  by (induction xs ys rule: lev.induct) (auto simp: min.commute min.left_commute)

text \<open>One more character on the left changes the recurrence by at most one, both ways.\<close>

lemma lev_step:
  "length xs + length ys = k \<Longrightarrow>
   lev (x # xs) ys \<le> Suc (lev xs ys) \<and> lev xs ys \<le> Suc (lev (x # xs) ys)"
proof (induction k arbitrary: xs ys x rule: less_induct)
  case (less k)
  show ?case
  proof (cases ys)
    case Nil
    then show ?thesis by simp
  next
    case ys: (Cons y ys')
    have small: "length ys' + length xs < k" "length xs + length ys' < k"
      using less.prems ys by auto
    from less.IH [OF small(1) refl, of y]
    have B: "lev xs (y # ys') \<le> Suc (lev xs ys')" and B': "lev xs ys' \<le> Suc (lev xs (y # ys'))"
      by (simp_all add: lev_sym [of _ xs])
    from less.IH [OF small(2) refl, of x]
    have A': "lev xs ys' \<le> Suc (lev (x # xs) ys')"
      by simp
    show ?thesis
    proof (cases "x = y")
      case True
      with ys B B' show ?thesis by simp
    next
      case False
      with ys B B' A' show ?thesis by simp linarith
    qed
  qed
qed

lemma lev_delete: "lev (x # xs) ys \<le> Suc (lev xs ys)"
  using lev_step [OF refl, of x xs ys] by simp

lemma lev_insert: "lev xs (y # ys) \<le> Suc (lev xs ys)"
  using lev_delete [of y ys xs] by (simp add: lev_sym [of _ xs])

lemma lev_subst: "lev (x # xs) (y # ys) \<le> Suc (lev xs ys)"
  by simp

text \<open>No script is shorter than the recurrence.\<close>

lemma lev_least: "edit xs ys n \<Longrightarrow> lev xs ys \<le> n"
proof (induction rule: edit.induct)
  case Done
  show ?case by simp
next
  case (Keep xs ys n x)
  then show ?case by simp
next
  case (Subst xs ys n x y)
  then show ?case using lev_subst [of x xs y ys] by linarith
next
  case (Delete xs ys n x)
  then show ?case using lev_delete [of x xs ys] by linarith
next
  case (Insert xs ys n y)
  then show ?case using lev_insert [of xs y ys] by linarith
qed

text \<open>A script can be read from the right as well.\<close>

lemma edit_snoc_keep: "edit xs ys n \<Longrightarrow> edit (xs @ [x]) (ys @ [x]) n"
  by (induction rule: edit.induct) (auto intro: edit.intros)

lemma edit_snoc_subst: "edit xs ys n \<Longrightarrow> edit (xs @ [x]) (ys @ [y]) (Suc n)"
  by (induction rule: edit.induct) (auto intro: edit.intros)

lemma edit_snoc_delete: "edit xs ys n \<Longrightarrow> edit (xs @ [x]) ys (Suc n)"
  by (induction rule: edit.induct) (auto intro: edit.intros)

lemma edit_snoc_insert: "edit xs ys n \<Longrightarrow> edit xs (ys @ [y]) (Suc n)"
  by (induction rule: edit.induct) (auto intro: edit.intros)

lemma edit_rev: "edit xs ys n \<Longrightarrow> edit (rev xs) (rev ys) n"
  by (induction rule: edit.induct)
     (auto intro: edit.Done edit_snoc_keep edit_snoc_subst edit_snoc_delete edit_snoc_insert)

lemma edit_rev_iff: "edit (rev xs) (rev ys) n \<longleftrightarrow> edit xs ys n"
  using edit_rev [of xs ys n] edit_rev [of "rev xs" "rev ys" n] by auto

text \<open>The table of the dynamic program.\<close>

lemma prefix_dist_0_left: "j \<le> length b \<Longrightarrow> prefix_dist a b 0 j = j"
  by (simp add: prefix_dist_def)

lemma prefix_dist_0_right: "i \<le> length a \<Longrightarrow> prefix_dist a b i 0 = i"
  by (simp add: prefix_dist_def)

lemma prefix_dist_Suc:
  assumes "i < length a" "j < length b"
  shows "prefix_dist a b (Suc i) (Suc j) =
     (if a ! i = b ! j then prefix_dist a b i j
      else 1 + min (prefix_dist a b i j)
                   (min (prefix_dist a b i (Suc j)) (prefix_dist a b (Suc i) j)))"
  using assms by (simp add: prefix_dist_def take_Suc_conv_app_nth)

text \<open>The inner loop completes row \<open>i\<close>, given row \<open>i - 1\<close> in \<open>prev\<close> and the columns
  before \<open>j\<close> of row \<open>i\<close> in \<open>cur\<close>.\<close>

lemma lev_inner_row:
  assumes "1 \<le> i" "i \<le> length a" "length prev = length b + 1" "length cur = length b + 1"
    and "\<forall>k \<le> length b. prev ! k = prefix_dist a b (i - 1) k"
    and "1 \<le> j" "\<forall>k < j. k \<le> length b \<longrightarrow> cur ! k = prefix_dist a b i k"
  shows "lev_inner a b i j prev cur = map (prefix_dist a b i) [0..<length b + 1]"
  using assms
proof (induction a b i j prev cur rule: lev_inner.induct)
  case (1 str1 str2 i j prev cur)
  show ?case
  proof (cases "j \<le> length str2")
    case True
    let ?v = "if str1 ! (i - 1) = str2 ! (j - 1) then prev ! (j - 1)
              else 1 + min (prev ! (j - 1)) (min (prev ! j) (cur ! (j - 1)))"
    obtain i' j' where ij: "i = Suc i'" "j = Suc j'"
      using "1.prems"(1,6) by (metis One_nat_def Suc_le_D)
    have v: "?v = prefix_dist str1 str2 i j"
      using "1.prems" True ij
      by (simp add: prefix_dist_Suc)
    have "lev_inner str1 str2 i (j + 1) prev (cur[j := ?v]) =
          map (prefix_dist str1 str2 i) [0..<length str2 + 1]"
    proof (rule "1.IH" [OF True])
      show "\<forall>k<j + 1. k \<le> length str2 \<longrightarrow> cur[j := ?v] ! k = prefix_dist str1 str2 i k"
      proof (intro allI impI)
        fix k assume k: "k < j + 1" "k \<le> length str2"
        show "cur[j := ?v] ! k = prefix_dist str1 str2 i k"
        proof (cases "k = j")
          case True
          then show ?thesis using v k "1.prems"(4) by simp
        next
          case False
          then show ?thesis using k "1.prems"(7) by simp
        qed
      qed
    qed (use "1.prems" in simp_all)
    then show ?thesis using True by (subst lev_inner.simps) simp
  next
    case False
    have "cur = map (prefix_dist str1 str2 i) [0..<length str2 + 1]"
    proof (rule nth_equalityI)
      show "length cur = length (map (prefix_dist str1 str2 i) [0..<length str2 + 1])"
        using "1.prems"(4) by simp
    next
      fix k assume "k < length cur"
      then have "k \<le> length str2" "k < j" using "1.prems"(4) False by auto
      then show "cur ! k = map (prefix_dist str1 str2 i) [0..<length str2 + 1] ! k"
        using "1.prems"(7) by (simp add: nth_append less_Suc_eq_le)
    qed
    then show ?thesis using False by (subst lev_inner.simps) simp
  qed
qed

text \<open>The outer loop ends with the last row in \<open>prev\<close>.\<close>

lemma lev_outer_rows:
  assumes "1 \<le> i" "i \<le> length a + 1"
    and "prev = map (prefix_dist a b (i - 1)) [0..<length b + 1]"
    and "length cur = length b + 1"
  shows "lev_outer a b i prev cur = map (prefix_dist a b (length a)) [0..<length b + 1]"
  using assms
proof (induction a b i prev cur rule: lev_outer.induct)
  case (1 str1 str2 i prev cur)
  show ?case
  proof (cases "i \<le> length str1")
    case True
    have prev_nth: "\<forall>k \<le> length str2. prev ! k = prefix_dist str1 str2 (i - 1) k"
      using "1.prems"(3) by (auto simp: nth_append less_Suc_eq_le simp del: upt_Suc)
    have row: "lev_inner str1 str2 i 1 prev (cur[0 := i]) =
               map (prefix_dist str1 str2 i) [0..<length str2 + 1]"
    proof (rule lev_inner_row)
      show "\<forall>k<1. k \<le> length str2 \<longrightarrow> cur[0 := i] ! k = prefix_dist str1 str2 i k"
        using "1.prems"(4) True by (simp add: prefix_dist_0_right)
    qed (use "1.prems" True prev_nth in simp_all)
    have "lev_outer str1 str2 (i + 1) (lev_inner str1 str2 i 1 prev (cur[0 := i])) prev =
          map (prefix_dist str1 str2 (length str1)) [0..<length str2 + 1]"
      by (rule "1.IH" [OF True]) (use "1.prems" True row in simp_all)
    then show ?thesis using True by (subst lev_outer.simps) simp
  next
    case False
    then have "i - 1 = length str1" using "1.prems"(1,2) by simp
    then show ?thesis using False "1.prems"(3) by (subst lev_outer.simps) simp
  qed
qed

lemma levenshteinDistance_lev: "levenshteinDistance a b = lev (rev a) (rev b)"
proof -
  have "lev_outer a b 1 (map (\<lambda>i. i) [0..<length b + 1]) (replicate (length b + 1) 0) =
        map (prefix_dist a b (length a)) [0..<length b + 1]"
  proof (rule lev_outer_rows)
    show "map (\<lambda>i. i) [0..<length b + 1] = map (prefix_dist a b (1 - 1)) [0..<length b + 1]"
      by (rule map_cong) (auto simp: prefix_dist_0_left simp del: upt_Suc)
  qed simp_all
  then show ?thesis
    by (simp add: levenshteinDistance_def Let_def nth_append prefix_dist_def del: upt_Suc)
qed

lemma levenshteinDistance_edit: "edit a b (levenshteinDistance a b)"
  using edit_lev [of "rev a" "rev b"] by (simp add: levenshteinDistance_lev edit_rev_iff)

lemma levenshteinDistance_least: "edit a b n \<Longrightarrow> levenshteinDistance a b \<le> n"
  using lev_least [of "rev a" "rev b" n] by (simp add: levenshteinDistance_lev edit_rev_iff)

lemma levenshteinDistance_Nil2: "levenshteinDistance x [] = length x"
  by (simp add: levenshteinDistance_lev)

text \<open>Scripts and sequences of single edits give the same least number.\<close>

lemma single_edit_Cons: "single_edit a b \<Longrightarrow> single_edit (x # a) (x # b)"
proof (induction rule: single_edit.induct)
  case (insertion u v y)
  show ?case using single_edit.insertion [of "x # u" v y] by simp
next
  case (deletion u y v)
  show ?case using single_edit.deletion [of "x # u" y v] by simp
next
  case (substitution u y v z)
  show ?case using single_edit.substitution [of "x # u" y v z] by simp
qed

lemma edits_Cons: "edits n a b \<Longrightarrow> edits n (x # a) (x # b)"
  unfolding edits_def
proof (induction n arbitrary: b)
  case 0
  then show ?case by simp
next
  case (Suc n)
  from Suc.prems obtain c where c: "(single_edit ^^ n) a c" "single_edit c b" by auto
  from Suc.IH [OF c(1)] single_edit_Cons [OF c(2), of x] show ?case by auto
qed

lemma edits_first: "single_edit a b \<Longrightarrow> edits n b c \<Longrightarrow> edits (Suc n) a c"
  unfolding edits_def by (rule relpowp_Suc_I2)

lemma single_edit_head:
  "single_edit xs (y # xs)" "single_edit (x # xs) xs" "single_edit (x # xs) (y # xs)"
  using single_edit.insertion [of "[]" xs y] single_edit.deletion [of "[]" x xs]
    single_edit.substitution [of "[]" x xs y]
  by simp_all

lemma edit_edits: "edit a b n \<Longrightarrow> edits n a b"
proof (induction rule: edit.induct)
  case Done
  show ?case by (simp add: edits_def)
next
  case (Keep xs ys n x)
  show ?case by (rule edits_Cons [OF Keep.IH])
next
  case (Subst xs ys n x y)
  show ?case
    by (rule edits_first [OF single_edit_head(3) edits_Cons [OF Subst.IH]])
next
  case (Delete xs ys n x)
  show ?case
    by (rule edits_first [OF single_edit_head(2) Delete.IH])
next
  case (Insert xs ys n y)
  show ?case
    by (rule edits_first [OF single_edit_head(1) edits_Cons [OF Insert.IH]])
qed

lemma lev_refl [simp]: "lev a a = 0"
  by (induction a) simp_all

lemma lev_drop: "lev xs ys \<le> Suc (lev xs (y # ys))"
  using lev_step [OF refl, of y ys xs] by (simp add: lev_sym [of _ xs])

lemma lev_change: "lev a (y # v) \<le> Suc (lev a (x # v))"
proof (induction a)
  case Nil
  show ?case by simp
next
  case (Cons w a)
  show ?case
  proof (cases "w = x")
    case True
    then show ?thesis using lev_subst [of w a y v] by simp
  next
    case False
    define L where "L = lev (w # a) (y # v)"
    have 1: "L \<le> Suc (lev a v)" unfolding L_def by (rule lev_subst)
    have 2: "L \<le> Suc (Suc (lev a (x # v)))"
      unfolding L_def using lev_delete [of w a "y # v"] Cons.IH by linarith
    have 3: "L \<le> Suc (lev (w # a) v)" unfolding L_def by (rule lev_insert)
    have R: "lev (w # a) (x # v) = 1 + min (lev a v) (min (lev a (x # v)) (lev (w # a) v))"
      using False by simp
    have "L \<le> Suc (lev (w # a) (x # v))" unfolding R using 1 2 3 by linarith
    then show ?thesis by (simp only: L_def)
  qed
qed

lemma lev_under_Cons:
  assumes "\<And>a. lev a c \<le> Suc (lev a b)"
  shows "lev a (z # c) \<le> Suc (lev a (z # b))"
proof (induction a)
  case Nil
  show ?case using assms [of "[]"] by simp
next
  case (Cons y a)
  show ?case
  proof (cases "y = z")
    case True
    then show ?thesis using assms [of a] by simp
  next
    case False
    define L where "L = lev (y # a) (z # c)"
    have L: "L = 1 + min (lev a c) (min (lev a (z # c)) (lev (y # a) c))"
      unfolding L_def using False by simp
    have R: "lev (y # a) (z # b) = 1 + min (lev a b) (min (lev a (z # b)) (lev (y # a) b))"
      using False by simp
    have "L \<le> Suc (lev (y # a) (z # b))"
      unfolding R L using assms [of a] assms [of "y # a"] Cons.IH by linarith
    then show ?thesis by (simp only: L_def)
  qed
qed

lemma lev_single_edit: "single_edit b c \<Longrightarrow> lev a c \<le> Suc (lev a b)"
proof (induction arbitrary: a rule: single_edit.induct)
  case (insertion u v x)
  show ?case
  proof (induction u arbitrary: a)
    case Nil
    show ?case using lev_insert [of a x v] by simp
  next
    case (Cons z u)
    show ?case using lev_under_Cons [OF Cons.IH, of a z] by simp
  qed
next
  case (deletion u x v)
  show ?case
  proof (induction u arbitrary: a)
    case Nil
    show ?case using lev_drop [of a v x] by simp
  next
    case (Cons z u)
    show ?case using lev_under_Cons [OF Cons.IH, of a z] by simp
  qed
next
  case (substitution u x v y)
  show ?case
  proof (induction u arbitrary: a)
    case Nil
    show ?case using lev_change [of a y v x] by simp
  next
    case (Cons z u)
    show ?case using lev_under_Cons [OF Cons.IH, of a z] by simp
  qed
qed

lemma lev_edits: "edits n a b \<Longrightarrow> lev a b \<le> n"
  unfolding edits_def
proof (induction n arbitrary: b)
  case 0
  then show ?case by simp
next
  case (Suc n)
  from Suc.prems obtain c where c: "(single_edit ^^ n) a c" "single_edit c b" by auto
  from Suc.IH [OF c(1)] lev_single_edit [OF c(2), of a] show ?case by linarith
qed

lemma edits_rev: "edits n a b \<Longrightarrow> edits n (rev a) (rev b)"
  unfolding edits_def
proof (induction n arbitrary: b)
  case 0
  then show ?case by simp
next
  case (Suc n)
  from Suc.prems obtain c where c: "(single_edit ^^ n) a c" "single_edit c b" by auto
  have "single_edit (rev c) (rev b)"
    using c(2)
  proof (cases rule: single_edit.cases)
    case (insertion u v x)
    then show ?thesis using single_edit.insertion [of "rev v" "rev u" x] by simp
  next
    case (deletion u x v)
    then show ?thesis using single_edit.deletion [of "rev v" x "rev u"] by simp
  next
    case (substitution u x v y)
    then show ?thesis using single_edit.substitution [of "rev v" x "rev u" y] by simp
  qed
  with Suc.IH [OF c(1)] show ?case by auto
qed

lemma levenshteinDistance_edits: "edits (levenshteinDistance a b) a b"
  using edit_edits [OF levenshteinDistance_edit] .

lemma levenshteinDistance_edits_least: "edits n a b \<Longrightarrow> levenshteinDistance a b \<le> n"
  using lev_edits [OF edits_rev, of n a b] by (simp add: levenshteinDistance_lev)

lemma distance_eq: "distance = levenshteinDistance"
proof (intro ext)
  fix a b
  show "distance a b = levenshteinDistance a b"
    unfolding distance_def
    by (rule Least_equality)
       (simp_all add: levenshteinDistance_edits levenshteinDistance_edits_least)
qed

lemma levenshteinDistance_kitten: "levenshteinDistance ''kitten'' ''sitting'' = 3"
  by code_simp

lemma levenshteinDistance_abc: "levenshteinDistance [] ''abc'' = 3"
  "levenshteinDistance ''abc'' ''abc'' = 0" "levenshteinDistance [] [] = 0"
  by code_simp+

text \<open>
  Claim C4. For all strings \<open>a\<close> and \<open>b\<close>, \<open>levenshteinDistance a b\<close> is the Levenshtein
  edit distance: that many single-character insertions, deletions and substitutions
  turn \<open>a\<close> into \<open>b\<close>, and no fewer do. In particular the distance from \<open>x\<close> to the
  empty string is the length of \<open>x\<close>, from the empty string to itself 0, from "kitten"
  to "sitting" 3, from the empty string to "abc" 3 and from "abc" to "abc" 0.
\<close>

theorem levenshteinDistance_is_edit_distance:
  "edits (levenshteinDistance a b) a b
   \<and> (\<forall>n. edits n a b \<longrightarrow> levenshteinDistance a b \<le> n)
   \<and> levenshteinDistance x [] = length x
   \<and> levenshteinDistance [] [] = 0
   \<and> levenshteinDistance ''kitten'' ''sitting'' = 3
   \<and> levenshteinDistance [] ''abc'' = 3
   \<and> levenshteinDistance ''abc'' ''abc'' = 0"
  using levenshteinDistance_edits [of a b] levenshteinDistance_edits_least [of _ a b]
    levenshteinDistance_Nil2 [of x] levenshteinDistance_kitten levenshteinDistance_abc
  by blast

text \<open>At "cofee" and "coffee": one insertion, so the distance is at most 1.\<close>

theorem levenshteinDistance_is_edit_distance_witness:
  "edits 1 ''cofee'' ''coffee'' \<and> levenshteinDistance ''cofee'' ''coffee'' \<le> 1"
proof -
  have "single_edit ''cofee'' ''coffee''"
    using single_edit.insertion [of "''cof''" "''ee''" "CHR ''f''"] by simp
  then have one: "edits 1 ''cofee'' ''coffee''"
    unfolding edits_def by auto
  with levenshteinDistance_is_edit_distance [of "''cofee''" "''coffee''"]
  show ?thesis by blast
qed

subsection \<open>Tokenization\<close>

declare runs.simps [simp del]

lemma runs_Nil [simp]: "runs [] = []"
  by (subst runs.simps) simp

lemma runs_space [simp]: "isWhiteSpace c \<Longrightarrow> runs (c # cs) = runs cs"
  by (subst runs.simps, subst (2) runs.simps) simp

lemma runs_word:
  "\<not> isWhiteSpace c \<Longrightarrow>
   runs (c # cs) = (c # takeWhile (\<lambda>x. \<not> isWhiteSpace x) cs)
                   # runs (dropWhile (\<lambda>x. \<not> isWhiteSpace x) cs)"
  by (subst runs.simps) simp

lemma runs_dropWhile [simp]: "runs (dropWhile isWhiteSpace s) = runs s"
  by (induction s) auto

lemma last_dropWhile: "dropWhile P s \<noteq> [] \<Longrightarrow> last (dropWhile P s) = last s"
  by (metis last_appendR takeWhile_dropWhile_id)

lemma trailing_dropWhile:
  "dropWhile isWhiteSpace s \<noteq> [] \<Longrightarrow> trailing_empty (dropWhile isWhiteSpace s) = trailing_empty s"
  using last_dropWhile [of isWhiteSpace s] by (cases s) (simp_all add: trailing_empty_def)

lemma trailing_all_space:
  "dropWhile isWhiteSpace s = [] \<Longrightarrow> s \<noteq> [] \<Longrightarrow> trailing_empty s = [[]]"
  by (auto simp: trailing_empty_def dropWhile_eq_Nil_conv)

lemma split_from_shape:
  "split_from tok s =
     (if s = [] then [tok]
      else if isWhiteSpace (hd s) then tok # runs s @ trailing_empty s
      else (tok @ takeWhile (\<lambda>x. \<not> isWhiteSpace x) s)
           # runs (dropWhile (\<lambda>x. \<not> isWhiteSpace x) s) @ trailing_empty s)"
proof (induction tok s rule: split_from.induct)
  case (1 tok)
  show ?case by simp
next
  case (2 tok c cs)
  show ?case
  proof (cases "isWhiteSpace c")
    case True
    let ?d = "dropWhile isWhiteSpace cs"
    show ?thesis
    proof (cases "?d = []")
      case d: True
      have "runs cs = runs ?d" by (rule runs_dropWhile [symmetric])
      then have "runs (c # cs) = []" using True by (simp only: d runs_Nil runs_space)
      moreover have "trailing_empty (c # cs) = [[]]"
        using True d by (intro trailing_all_space) simp_all
      moreover have "split_from tok (c # cs) = tok # split_from [] []"
        using True by (simp only: split_from.simps d if_True)
      ultimately show ?thesis using True by simp
    next
      case d: False
      then have hd: "\<not> isWhiteSpace (hd ?d)" by (simp add: hd_dropWhile)
      have "split_from [] ?d = runs ?d @ trailing_empty ?d"
        using "2.IH"(1) [OF True] d hd
        by (cases ?d) (simp_all add: runs_word)
      moreover have "trailing_empty ?d = trailing_empty (c # cs)"
        using trailing_dropWhile [of "c # cs"] True d by simp
      ultimately show ?thesis using True by simp
    qed
  next
    case False
    have t: "trailing_empty (c # cs) = trailing_empty cs" if "cs \<noteq> []"
      using that by (simp add: trailing_empty_def)
    show ?thesis
    proof (cases cs)
      case Nil
      with False show ?thesis by (simp add: trailing_empty_def)
    next
      case (Cons d ds)
      then show ?thesis using False "2.IH"(2) [OF False] t by auto
    qed
  qed
qed

lemma nameWords_shape:
  "nameWords s =
     (let t = toLowerCase s in leading_empty t @ runs t @ trailing_empty t)"
  unfolding nameWords_def split_ws_def Let_def
  by (subst split_from_shape)
     (cases "toLowerCase s"; simp add: leading_empty_def trailing_empty_def runs_word)

lemma split_ws_pieces: "split_ws s = pieces s"
  unfolding split_ws_def pieces_def
  by (subst split_from_shape)
     (cases s; simp add: leading_empty_def trailing_empty_def runs_word)

lemma runs_nonempty: "[] \<notin> set (runs s)"
proof (induction s rule: runs.induct)
  case (1 s)
  show ?case
  proof (cases "dropWhile isWhiteSpace s")
    case Nil
    then show ?thesis by (subst runs.simps) (simp only: list.case set_simps empty_iff not_False_eq_True)
  next
    case (Cons c cs)
    with 1 [OF Cons] show ?thesis by (subst runs.simps) (simp del: dropWhile_eq_Nil_conv)
  qed
qed

lemma runs_no_space: "\<forall>w \<in> set (runs s). \<forall>c \<in> set w. \<not> isWhiteSpace c"
proof (induction s rule: runs.induct)
  case (1 s)
  show ?case
  proof (cases "dropWhile isWhiteSpace s")
    case Nil
    then show ?thesis by (subst runs.simps) (simp only: list.case set_simps ball_empty)
  next
    case (Cons c cs)
    have "dropWhile isWhiteSpace s \<noteq> []"
      by (simp only: Cons list.distinct not_False_eq_True)
    then have "\<not> isWhiteSpace (hd (dropWhile isWhiteSpace s))"
      by (rule hd_dropWhile)
    with Cons have c: "\<not> isWhiteSpace c"
      by (metis list.sel(1))
    have r: "runs s = (c # takeWhile (\<lambda>x. \<not> isWhiteSpace x) cs)
                      # runs (dropWhile (\<lambda>x. \<not> isWhiteSpace x) cs)"
      by (subst runs.simps) (simp only: Cons list.case)
    note IH = 1 [OF Cons]
    show ?thesis
    proof (intro ballI)
      fix w x
      assume w: "w \<in> set (runs s)" and x: "x \<in> set w"
      from w r consider (first) "w = c # takeWhile (\<lambda>x. \<not> isWhiteSpace x) cs"
        | (later) "w \<in> set (runs (dropWhile (\<lambda>x. \<not> isWhiteSpace x) cs))"
        by auto
      then show "\<not> isWhiteSpace x"
      proof cases
        case first
        with x have "x = c \<or> x \<in> set (takeWhile (\<lambda>x. \<not> isWhiteSpace x) cs)" by simp
        then show ?thesis using c set_takeWhileD [of x "\<lambda>x. \<not> isWhiteSpace x" cs] by blast
      next
        case later
        with IH x show ?thesis by blast
      qed
    qed
  qed
qed

lemma nameWords_nonempty_words: "filter (\<lambda>w. w \<noteq> []) (nameWords s) = runs (toLowerCase s)"
proof -
  have "filter (\<lambda>w. w \<noteq> []) (runs (toLowerCase s)) = runs (toLowerCase s)"
    using runs_nonempty [of "toLowerCase s"] by (simp add: filter_id_conv) metis
  then show ?thesis
    by (simp add: nameWords_shape Let_def leading_empty_def trailing_empty_def)
qed

text \<open>
  Claim C8, as the code has it. For every input string, the tokenization
  (\<open>toLowerCase\<close>, then \<open>split(/\s+/)\<close>) returns the maximal runs of characters of the
  lowercased string that are not white space, in order, with one empty token in front
  when the string is empty or starts with white space, and one empty token at the end
  when the string ends with white space. The tokens that are not empty are exactly the
  runs; the empty string yields one token, the empty string.
\<close>

theorem nameWords_runs:
  "nameWords s = (let t = toLowerCase s in leading_empty t @ runs t @ trailing_empty t)
   \<and> filter (\<lambda>w. w \<noteq> []) (nameWords s) = runs (toLowerCase s)
   \<and> (\<forall>w \<in> set (runs (toLowerCase s)). w \<noteq> [] \<and> (\<forall>c \<in> set w. \<not> isWhiteSpace c))
   \<and> nameWords [] = [[]]"
proof -
  have "nameWords [] = [[]]"
    by (simp add: nameWords_def split_ws_def toLowerCase_def)
  moreover have "\<forall>w \<in> set (runs (toLowerCase s)). w \<noteq> []"
    using runs_nonempty [of "toLowerCase s"] by metis
  ultimately show ?thesis
    using nameWords_shape [of s] nameWords_nonempty_words [of s] runs_no_space [of "toLowerCase s"]
    by blast
qed

text \<open>At the string \<open>'' Ab  cD ''\<close>: the two runs, and an empty token on each side.\<close>

theorem nameWords_runs_witness:
  "nameWords '' Ab  cD '' = ['''', ''ab'', ''cd'', '''']
   \<and> runs (toLowerCase '' Ab  cD '') = [''ab'', ''cd'']"
proof -
  have "nameWords '' Ab  cD '' = ['''', ''ab'', ''cd'', '''']"
    by code_simp
  moreover note nameWords_runs [of "'' Ab  cD ''", THEN conjunct2, THEN conjunct1]
  ultimately show ?thesis by simp
qed

text \<open>The claim as stated, that the empty string yields no token at all, fails.\<close>

theorem nameWords_empty_counterexample: "nameWords '''' = [''''] \<and> nameWords '''' \<noteq> []"
  by (simp add: nameWords_def split_ws_def toLowerCase_def)

subsection \<open>Relevance score\<close>

lemma startsWith_prefix: "startsWith s q = prefix q s"
  by (induction s q rule: startsWith.induct) auto

lemma includes_str_sublist: "includes_str s q = sublist q s"
  by (induction s) (auto simp: startsWith_prefix sublist_Cons_right)

lemma fold_word_bonus:
  "fold (word_bonus qw) nws s =
   s + (\<Sum>nw \<leftarrow> nws. if nw = qw then 20 else if prefix qw nw then 10 else 0)"
  by (induction nws arbitrary: s) (auto simp: word_bonus_def startsWith_prefix)

lemma fold_fold_word_bonus:
  "fold (\<lambda>qw. fold (word_bonus qw) nws) qws s =
   s + (\<Sum>qw \<leftarrow> qws. \<Sum>nw \<leftarrow> nws. if nw = qw then 20 else if prefix qw nw then 10 else 0)"
  by (induction qws arbitrary: s) (auto simp: fold_word_bonus)

lemma math_min_Min: "xs \<noteq> [] \<Longrightarrow> math_min xs = Some (Min (set xs))"
proof (induction xs)
  case Nil
  then show ?case by simp
next
  case (Cons x xs)
  then show ?case by (cases xs) (auto simp: min.commute)
qed

lemma split_from_not_Nil: "split_from tok s \<noteq> []"
  by (induction tok s rule: split_from.induct) auto

lemma pieces_not_Nil: "pieces s \<noteq> []"
  using split_from_not_Nil [of "[]" s] by (simp add: split_ws_pieces [symmetric] split_ws_def)

lemma calculateScore_pieces:
  "name p = Some nm \<Longrightarrow>
   calculateScore p query =
     Inr (score_formula pieces (toLowerCase nm) (toLowerCase query)
            (toLowerCase (or_empty (category p))))"
  by (simp add: calculateScore_def score_formula_def Let_def startsWith_prefix
        includes_str_sublist fold_fold_word_bonus math_min_Min pieces_not_Nil
        split_ws_pieces distance_eq)

lemma score_formula_nonneg: "0 \<le> score_formula tokens n q c"
proof -
  have "0 \<le> (\<Sum>qw \<leftarrow> tokens q. \<Sum>nw \<leftarrow> tokens n.
        if nw = qw then 20 else if prefix qw nw then 10 else (0::int))"
    by (intro sum_list_nonneg) (auto intro!: sum_list_nonneg)
  then show ?thesis
    by (simp add: score_formula_def Let_def)
qed

lemma sublist_includes_str: "sublist q s = includes_str s q"
  by (simp add: includes_str_sublist)

text \<open>
  Claim C1, as the code has it. For every product record (with its name) and every
  query string, \<open>calculateScore\<close> returns an integer that is not negative and is the
  sum of: 100 if the lowercased name equals the lowercased query, 50 if the name starts
  with the query, 30 if the name contains the query, for every pair of a query word and
  a name word 20 if they are equal and else 10 if the name word starts with the query
  word, 15 if the category contains the query, and \<open>(3 - d) * 5\<close> when \<open>d \<le> 2\<close>, for
  \<open>d\<close> the least Levenshtein distance between the lowercased query and a word of the
  lowercased name. The words of the name and of the query are the pieces that
  \<open>split(/\s+/)\<close> returns: the whitespace-tokens, and an empty piece in front of a
  leading white space, after a trailing white space, and for the empty string.
\<close>

theorem calculateScore_contributions:
  assumes "name p = Some nm"
  shows "calculateScore p query =
           Inr (score_formula pieces (toLowerCase nm) (toLowerCase query)
                  (toLowerCase (or_empty (category p))))
       \<and> 0 \<le> score_formula pieces (toLowerCase nm) (toLowerCase query)
                (toLowerCase (or_empty (category p)))"
  using calculateScore_pieces [OF assms] score_formula_nonneg by simp

text \<open>Scenario A of the specification: the name starts with the query.\<close>

theorem calculateScore_contributions_witness:
  "calculateScore wireless_headphones ''wireless'' = Inr 115
   \<and> score_formula pieces ''wireless headphones pro'' ''wireless'' ''electronics'' = 115"
proof -
  have nm: "name wireless_headphones = Some ''Wireless Headphones Pro''"
    by (simp add: wireless_headphones_def)
  have low: "toLowerCase ''Wireless Headphones Pro'' = ''wireless headphones pro''"
    "toLowerCase ''wireless'' = ''wireless''"
    "toLowerCase (or_empty (category wireless_headphones)) = ''electronics''"
    by code_simp+
  have val: "calculateScore wireless_headphones ''wireless'' = Inr 115"
    by code_simp
  from calculateScore_contributions [OF nm, of "''wireless''"] show ?thesis
    unfolding low val by simp
qed

text \<open>
  The claim as stated, on the whitespace-tokens alone, fails on a name that ends with a
  space. For the name "Pro " and the query "ab" the only token, "pro", is at distance
  3, and the claimed sum is 0; the code compares with the empty piece as well, at
  distance 2, and returns 5.
\<close>

theorem calculateScore_padded_counterexample:
  "calculateScore pro_padded ''ab'' = Inr 5
   \<and> score_formula runs (toLowerCase ''Pro '') (toLowerCase ''ab'')
        (toLowerCase (or_empty (category pro_padded))) = 0
   \<and> calculateScore pro_padded ''ab''
       \<noteq> Inr (score_formula runs (toLowerCase ''Pro '') (toLowerCase ''ab'')
                (toLowerCase (or_empty (category pro_padded))))"
proof -
  have val: "calculateScore pro_padded ''ab'' = Inr 5"
    by code_simp
  have low: "toLowerCase ''Pro '' = ''pro ''" "toLowerCase ''ab'' = ''ab''"
    "toLowerCase (or_empty (category pro_padded)) = []"
    by code_simp+
  have tok: "runs ''pro '' = [''pro'']" "runs ''ab'' = [''ab'']"
    by code_simp+
  have dist: "levenshteinDistance ''ab'' ''pro'' = 3"
    by code_simp
  have sub: "\<not> includes_str ''pro '' ''ab''" "\<not> includes_str [] ''ab''"
    by code_simp+
  have "score_formula runs ''pro '' ''ab'' [] = 0"
    by (simp add: score_formula_def tok distance_eq dist sublist_includes_str sub)
  with val show ?thesis unfolding low by simp
qed

subsection \<open>Trie\<close>

lemma add_product_has: "\<exists>x \<in> set (add_product p ps). ident x = ident p"
  by (auto simp: add_product_def find_None_iff)

lemma add_product_keeps: "set ps \<subseteq> set (add_product p ps)"
  by (auto simp: add_product_def)

lemma add_product_only: "set (add_product p ps) \<subseteq> insert p (set ps)"
  by (auto simp: add_product_def)

lemma node_products_insert_at [simp]: "node_products (insert_at n w p) = node_products n"
  by (cases n; cases w) (simp_all add: Let_def)

lemma search_at_new [simp]: "search_at new_TrieNode q = []"
  by (cases q) (simp_all add: new_TrieNode_def)

lemma search_at_insert_at_Cons:
  "search_at (insert_at n (c # cs) p) (c' # q) =
     (if c' = c
      then search_at (insert_at
             (let child = (case children n c of None \<Rightarrow> new_TrieNode | Some m \<Rightarrow> m)
              in TrieNode (children child) (isEndOfWord child) (add_product p (node_products child)))
             cs p) q
      else search_at n (c' # q))"
  by (cases n) (simp add: Let_def)

lemmas search_at_Cons = search_at.simps(2)

lemma search_at_insert_at_Nil: "search_at (insert_at n [] p) q = search_at n q"
  by (cases n; cases q) simp_all

lemma search_at_child_grows:
  "set (search_at (case children n c of None \<Rightarrow> new_TrieNode | Some m \<Rightarrow> m) q) =
   set (search_at n (c # q))"
  by (cases "children n c") simp_all

lemma insert_at_keeps: "set (search_at n q) \<subseteq> set (search_at (insert_at n w p) q)"
proof (induction w arbitrary: n q)
  case Nil
  show ?case by (simp add: search_at_insert_at_Nil)
next
  case (Cons c cs)
  show ?case
  proof (cases q)
    case Nil
    then show ?thesis by simp
  next
    case q: (Cons c' q')
    let ?child = "case children n c of None \<Rightarrow> new_TrieNode | Some m \<Rightarrow> m"
    let ?child' = "TrieNode (children ?child) (isEndOfWord ?child) (add_product p (node_products ?child))"
    show ?thesis
    proof (cases "c' = c")
      case False
      with q show ?thesis by (simp add: search_at_insert_at_Cons del: search_at_Cons)
    next
      case True
      have "set (search_at n (c # q')) = set (search_at ?child q')"
        by (rule search_at_child_grows [symmetric])
      also have "\<dots> \<subseteq> set (search_at ?child' q')"
        using add_product_keeps [of "node_products ?child" p]
        by (cases q') simp_all
      also have "\<dots> \<subseteq> set (search_at (insert_at ?child' cs p) q')"
        by (rule Cons.IH)
      finally show ?thesis using q True
        by (simp add: search_at_insert_at_Cons Let_def del: search_at_Cons)
    qed
  qed
qed

lemma insert_at_only: "set (search_at (insert_at n w p) q) \<subseteq> insert p (set (search_at n q))"
proof (induction w arbitrary: n q)
  case Nil
  show ?case by (auto simp: search_at_insert_at_Nil)
next
  case (Cons c cs)
  show ?case
  proof (cases q)
    case Nil
    then show ?thesis by auto
  next
    case q: (Cons c' q')
    let ?child = "case children n c of None \<Rightarrow> new_TrieNode | Some m \<Rightarrow> m"
    let ?child' = "TrieNode (children ?child) (isEndOfWord ?child) (add_product p (node_products ?child))"
    show ?thesis
    proof (cases "c' = c")
      case False
      with q show ?thesis by (simp add: search_at_insert_at_Cons del: search_at_Cons) blast
    next
      case True
      have a: "set (search_at (insert_at ?child' cs p) q') \<subseteq> insert p (set (search_at ?child' q'))"
        by (rule Cons.IH)
      have b: "set (search_at ?child' q') \<subseteq> insert p (set (search_at ?child q'))"
        using add_product_only [of p "node_products ?child"]
        by (cases q') auto
      have c: "set (search_at ?child q') = set (search_at n (c # q'))"
        by (rule search_at_child_grows)
      from a b c
      have "set (search_at (insert_at ?child' cs p) q') \<subseteq> insert p (set (search_at n (c # q')))"
        by blast
      then show ?thesis using q True
        by (simp add: search_at_insert_at_Cons Let_def del: search_at_Cons)
    qed
  qed
qed

lemma insert_at_adds:
  "q \<noteq> [] \<Longrightarrow> prefix q w \<Longrightarrow> \<exists>x \<in> set (search_at (insert_at n w p) q). ident x = ident p"
proof (induction w arbitrary: n q)
  case Nil
  then show ?case by simp
next
  case (Cons c cs)
  then obtain q' where q: "q = c # q'" and pre: "prefix q' cs"
    by (cases q) auto
  let ?child = "case children n c of None \<Rightarrow> new_TrieNode | Some m \<Rightarrow> m"
  let ?child' = "TrieNode (children ?child) (isEndOfWord ?child) (add_product p (node_products ?child))"
  show ?case
  proof (cases "q' = []")
    case True
    then show ?thesis using q add_product_has [of p "node_products ?child"]
      by (simp add: search_at_insert_at_Cons Let_def del: search_at_Cons)
  next
    case False
    from Cons.IH [OF False pre, of ?child'] show ?thesis using q
      by (simp add: search_at_insert_at_Cons Let_def del: search_at_Cons)
  qed
qed

lemma insert_all_has:
  "q \<noteq> [] \<Longrightarrow> prefix (toLowerCase q) (toLowerCase w) \<Longrightarrow>
   (w, p) \<in> set ops \<or> (\<exists>x \<in> set (trie_search t q). ident x = ident p) \<Longrightarrow>
   \<exists>x \<in> set (trie_search (insert_all ops t) q). ident x = ident p"
proof (induction ops arbitrary: t)
  case Nil
  then show ?case by (simp add: insert_all_def)
next
  case (Cons op ops)
  obtain w' p' where op: "op = (w', p')" by (cases op)
  have step: "insert_all (op # ops) t = insert_all ops (trie_insert t w' p')"
    by (simp add: insert_all_def op)
  have "(w, p) \<in> set ops \<or> (\<exists>x \<in> set (trie_search (trie_insert t w' p') q). ident x = ident p)"
  proof (cases "(w, p) \<in> set ops")
    case True
    then show ?thesis by simp
  next
    case False
    with Cons.prems(3)
    consider "op = (w, p)" | "\<exists>x \<in> set (trie_search t q). ident x = ident p" by auto
    then show ?thesis
    proof cases
      case 1
      with op have "w' = w" "p' = p" by simp_all
      then show ?thesis
        using insert_at_adds [of "toLowerCase q" "toLowerCase w" t p] Cons.prems(1,2)
        by (simp add: trie_search_def trie_insert_def toLowerCase_def)
    next
      case 2
      then show ?thesis
        using insert_at_keeps [of t "toLowerCase q" "toLowerCase w'" p']
        by (auto simp: trie_search_def trie_insert_def)
    qed
  qed
  from Cons.IH [OF Cons.prems(1,2) this] show ?case by (simp add: step)
qed

lemma insert_all_only:
  "set (trie_search (insert_all ops t) q) \<subseteq> set (trie_search t q) \<union> snd ` set ops"
proof (induction ops arbitrary: t)
  case Nil
  show ?case by (simp add: insert_all_def)
next
  case (Cons op ops)
  obtain w' p' where op: "op = (w', p')" by (cases op)
  have step: "insert_all (op # ops) t = insert_all ops (trie_insert t w' p')"
    by (simp add: insert_all_def op)
  have "set (trie_search (trie_insert t w' p') q) \<subseteq> insert p' (set (trie_search t q))"
    using insert_at_only [of t "toLowerCase w'" p' "toLowerCase q"]
    by (simp add: trie_search_def trie_insert_def)
  with Cons.IH [of "trie_insert t w' p'"] show ?case
    by (subst step) (auto simp: op)
qed

text \<open>What \<open>insert\<close> changes, exactly: the node of every prefix of the word that is not
  empty gets the product, unless it has one with that identifier.\<close>

lemma search_at_insert_at:
  "search_at (insert_at n w p) q =
     (if q \<noteq> [] \<and> prefix q w then add_product p (search_at n q) else search_at n q)"
proof (induction w arbitrary: n q)
  case Nil
  show ?case by (simp add: search_at_insert_at_Nil)
next
  case (Cons c cs)
  show ?case
  proof (cases q)
    case Nil
    then show ?thesis by simp
  next
    case q: (Cons c' q')
    let ?child = "case children n c of None \<Rightarrow> new_TrieNode | Some m \<Rightarrow> m"
    let ?child' = "TrieNode (children ?child) (isEndOfWord ?child) (add_product p (node_products ?child))"
    show ?thesis
    proof (cases "c' = c")
      case False
      with q show ?thesis by (simp add: search_at_insert_at_Cons del: search_at_Cons)
    next
      case True
      have old: "search_at ?child q' = search_at n (c # q')"
        by (cases "children n c") simp_all
      have step: "search_at (insert_at n (c # cs) p) q = search_at (insert_at ?child' cs p) q'"
        using q True by (simp add: search_at_insert_at_Cons Let_def del: search_at_Cons)
      show ?thesis
      proof (cases "q' = []")
        case True
        then show ?thesis using step old q \<open>c' = c\<close> by (simp add: Cons.IH del: search_at_Cons)
      next
        case False
        then have "search_at ?child' q' = search_at ?child q'" by (cases q') simp_all
        with False show ?thesis
          using step old q \<open>c' = c\<close> by (simp add: Cons.IH del: search_at_Cons)
      qed
    qed
  qed
qed

lemma add_product_distinct:
  "distinct (map ident ps) \<Longrightarrow> distinct (map ident (add_product p ps))"
  by (auto simp: add_product_def find_None_iff)

lemma insert_all_distinct:
  "\<forall>q. distinct (map ident (trie_search t q)) \<Longrightarrow>
   distinct (map ident (trie_search (insert_all ops t) q))"
proof (induction ops arbitrary: t)
  case Nil
  then show ?case by (simp add: insert_all_def)
next
  case (Cons op ops)
  obtain w' p' where op: "op = (w', p')" by (cases op)
  have step: "insert_all (op # ops) t = insert_all ops (trie_insert t w' p')"
    by (simp add: insert_all_def op)
  have "\<forall>q. distinct (map ident (trie_search (trie_insert t w' p') q))"
    using Cons.prems
    by (simp add: trie_search_def trie_insert_def search_at_insert_at add_product_distinct)
  from Cons.IH [OF this] show ?case by (simp add: step)
qed

text \<open>
  Claim C3. After any sequence of calls of \<open>insert\<close> on a new Trie, for every inserted
  pair of a word and a product and every prefix of the word that is not empty (compared
  after lowercasing), \<open>search\<close> on the prefix returns a product with the identifier of
  that product: \<open>insert\<close> adds the product at every node on the path of the word unless
  a product with the same identifier is there, so that no node holds two products with
  one identifier. Where identifiers are unique among the inserted products, the result
  holds the product itself.
\<close>

theorem trie_search_finds_inserted:
  assumes "(w, p) \<in> set ops" "q \<noteq> []" "prefix (toLowerCase q) (toLowerCase w)"
  shows "(\<exists>x \<in> set (trie_search (insert_all ops new_TrieNode) q). ident x = ident p)
       \<and> ((\<forall>p' \<in> snd ` set ops. ident p' = ident p \<longrightarrow> p' = p)
           \<longrightarrow> p \<in> set (trie_search (insert_all ops new_TrieNode) q))
       \<and> distinct (map ident (trie_search (insert_all ops new_TrieNode) q))"
proof -
  from insert_all_has [OF assms(2,3), of p ops new_TrieNode] assms(1)
  obtain x where x: "x \<in> set (trie_search (insert_all ops new_TrieNode) q)" "ident x = ident p"
    by auto
  moreover have "x \<in> snd ` set ops"
    using insert_all_only [of ops new_TrieNode q] x(1) by (auto simp: trie_search_def)
  moreover have "distinct (map ident (trie_search (insert_all ops new_TrieNode) q))"
    by (rule insert_all_distinct) (simp add: trie_search_def)
  ultimately show ?thesis by auto
qed

text \<open>Two inserted words, and a prefix in capitals.\<close>

theorem trie_search_finds_inserted_witness:
  "smart_watch \<in> set (trie_search
      (insert_all [(''Smart'', smart_watch), (''phone'', smart_phone)] new_TrieNode) ''SM'')"
proof -
  let ?ops = "[(''Smart'', smart_watch), (''phone'', smart_phone)]"
  have 1: "(''Smart'', smart_watch) \<in> set ?ops" by simp
  have 2: "''SM'' \<noteq> []" by simp
  have 3: "prefix (toLowerCase ''SM'') (toLowerCase ''Smart'')" by code_simp
  have 4: "\<forall>p' \<in> snd ` set ?ops. ident p' = ident smart_watch \<longrightarrow> p' = smart_watch"
    by (simp add: smart_watch_def smart_phone_def)
  from trie_search_finds_inserted [OF 1 2 3] 4 show ?thesis by blast
qed

subsection \<open>What buildIndex leaves in the engine\<close>

lemma trie_insert_within:
  "\<forall>q. set (search_at t q) \<subseteq> S \<Longrightarrow> p \<in> S \<Longrightarrow> \<forall>q. set (search_at (trie_insert t w p) q) \<subseteq> S"
  using insert_at_only [of t "toLowerCase w" p] unfolding trie_insert_def by blast

lemma index_word_products [simp]: "products (index_word p w e) = products e"
  by (simp add: index_word_def)

lemma index_word_within:
  "\<forall>q. set (search_at (trie e) q) \<subseteq> S \<Longrightarrow> p \<in> S \<Longrightarrow>
   \<forall>q. set (search_at (trie (index_word p w e)) q) \<subseteq> S"
  using trie_insert_within [of "trie e" S p w] by (simp add: index_word_def)

lemma fold_index_word_products [simp]: "products (fold (index_word p) ws e) = products e"
  by (induction ws arbitrary: e) simp_all

lemma fold_index_word_within:
  "\<forall>q. set (search_at (trie e) q) \<subseteq> S \<Longrightarrow> p \<in> S \<Longrightarrow>
   \<forall>q. set (search_at (trie (fold (index_word p) ws e)) q) \<subseteq> S"
proof (induction ws arbitrary: e)
  case Nil
  then show ?case by simp
next
  case (Cons w ws)
  from Cons.IH [OF index_word_within [OF Cons.prems, of w] Cons.prems(2)]
  show ?case by simp
qed

lemma index_product_Inl: "(\<exists>err. index_product p e = Inl err) \<longleftrightarrow> name p = None"
  by (auto simp: index_product_def Let_def split: option.splits)

lemma index_product_Inr:
  assumes "index_product p e = Inr e'"
  shows "products e' = products e" and "name p \<noteq> None"
    and "\<forall>q. set (search_at (trie e) q) \<subseteq> S \<Longrightarrow> p \<in> S \<Longrightarrow>
         \<forall>q. set (search_at (trie e') q) \<subseteq> S"
proof -
  from assms obtain nm where nm: "name p = Some nm"
    by (auto simp: index_product_def split: option.splits)
  then show "name p \<noteq> None" by simp
  from assms nm show "products e' = products e"
    by (auto simp: index_product_def Let_def split: if_splits)
  assume S: "\<forall>q. set (search_at (trie e) q) \<subseteq> S" "p \<in> S"
  let ?e1 = "fold (index_word p) (nameWords nm) e"
  have 1: "\<forall>q. set (search_at (trie ?e1) q) \<subseteq> S"
    by (rule fold_index_word_within [OF S])
  define t2 where "t2 = trie_insert (trie ?e1) nm p"
  define t3 where
    "t3 = (if truthy (category p) then trie_insert t2 (or_empty (category p)) p else t2)"
  define t4 where "t4 = (if truthy (sku p) then trie_insert t3 (or_empty (sku p)) p else t3)"
  have e': "trie e' = t4"
    using assms nm by (auto simp: index_product_def Let_def t2_def t3_def t4_def)
  have 2: "\<forall>q. set (search_at t2 q) \<subseteq> S"
    unfolding t2_def by (rule trie_insert_within [OF 1 S(2)])
  have 3: "\<forall>q. set (search_at t3 q) \<subseteq> S"
  proof (cases "truthy (category p)")
    case True
    then have "t3 = trie_insert t2 (or_empty (category p)) p" by (simp add: t3_def)
    then show ?thesis using trie_insert_within [OF 2 S(2)] by simp
  next
    case False
    then show ?thesis using 2 by (simp add: t3_def)
  qed
  have 4: "\<forall>q. set (search_at t4 q) \<subseteq> S"
  proof (cases "truthy (sku p)")
    case True
    then have "t4 = trie_insert t3 (or_empty (sku p)) p" by (simp add: t4_def)
    then show ?thesis using trie_insert_within [OF 3 S(2)] by simp
  next
    case False
    then show ?thesis using 3 by (simp add: t4_def)
  qed
  then show "\<forall>q. set (search_at (trie e') q) \<subseteq> S"
    by (simp add: e')
qed

lemma index_all_products [simp]: "products (snd (index_all ps e)) = products e"
proof (induction ps arbitrary: e)
  case Nil
  show ?case by simp
next
  case (Cons p ps)
  show ?case
  proof (cases "index_product p e")
    case (Inl err)
    then show ?thesis by simp
  next
    case (Inr e')
    with Cons.IH [of e'] index_product_Inr(1) [OF Inr] show ?thesis by simp
  qed
qed

lemma index_all_within:
  "\<forall>q. set (search_at (trie e) q) \<subseteq> S \<Longrightarrow> {p \<in> set ps. name p \<noteq> None} \<subseteq> S \<Longrightarrow>
   \<forall>q. set (search_at (trie (snd (index_all ps e))) q) \<subseteq> S"
proof (induction ps arbitrary: e)
  case Nil
  then show ?case by simp
next
  case (Cons p ps)
  show ?case
  proof (cases "index_product p e")
    case (Inl err)
    with Cons.prems show ?thesis by simp
  next
    case (Inr e')
    have "p \<in> S" using index_product_Inr(2) [OF Inr] Cons.prems(2) by auto
    from index_product_Inr(3) [OF Inr Cons.prems(1) this]
    have "\<forall>q. set (search_at (trie e') q) \<subseteq> S" .
    moreover have "{p \<in> set ps. name p \<noteq> None} \<subseteq> S" using Cons.prems(2) by auto
    ultimately show ?thesis using Cons.IH [of e'] Inr by simp
  qed
qed

lemma index_all_fst: "fst (index_all ps e) = None \<longleftrightarrow> (\<forall>p \<in> set ps. name p \<noteq> None)"
proof (induction ps arbitrary: e)
  case Nil
  show ?case by simp
next
  case (Cons p ps)
  show ?case
  proof (cases "index_product p e")
    case (Inl err)
    then have "name p = None" using index_product_Inl [of p e] by auto
    with Inl show ?thesis by simp
  next
    case (Inr e')
    with Cons.IH [of e'] index_product_Inr(2) [OF Inr] show ?thesis by simp
  qed
qed

lemma buildIndex_products: "products (snd (buildIndex ps e)) = ps"
  by (simp add: buildIndex_def)

lemma buildIndex_fst: "fst (buildIndex ps e) = None \<longleftrightarrow> (\<forall>p \<in> set ps. name p \<noteq> None)"
  by (simp add: buildIndex_def index_all_fst)

lemma buildIndex_trie:
  "set (trie_search (trie (snd (buildIndex ps e))) q) \<subseteq> {p \<in> set ps. name p \<noteq> None}"
proof -
  have "\<forall>q. set (search_at (trie (snd (buildIndex ps e))) q) \<subseteq> {p \<in> set ps. name p \<noteq> None}"
    unfolding buildIndex_def by (rule index_all_within) simp_all
  then show ?thesis by (simp add: trie_search_def)
qed

subsection \<open>Candidates\<close>

lemma map_set_new: "\<not> map_has k m \<Longrightarrow> map_set k v m = m @ [(k, v)]"
  by (induction m) (auto simp: map_has_def)

lemma map_set_values: "snd ` set (map_set k v m) \<subseteq> insert v (snd ` set m)"
proof (induction m)
  case Nil
  show ?case by simp
next
  case (Cons kv m)
  obtain k' v' where kv: "kv = (k', v')" by (cases kv)
  show ?case
  proof (cases "k' = k")
    case True
    then show ?thesis by (auto simp: kv)
  next
    case False
    with Cons.IH show ?thesis by (auto simp: kv)
  qed
qed

lemma fold_map_set_values:
  "snd ` set (fold (\<lambda>p res. map_set (ident p) p res) xs m) \<subseteq> snd ` set m \<union> set xs"
proof (induction xs arbitrary: m)
  case Nil
  show ?case by simp
next
  case (Cons x xs)
  from Cons.IH [of "map_set (ident x) x m"] map_set_values [of "ident x" x m]
  show ?case by auto
qed

lemma trie_candidates_values:
  "snd ` set (trie_candidates e q) \<subseteq> set (trie_search (trie e) q)"
  using fold_map_set_values [of "trie_search (trie e) q" "[]"]
  by (simp add: trie_candidates_def)

lemma augment_cases:
  assumes "name p = Some nm"
  shows "augment lq (p # ps) res = augment lq ps res
       \<or> augment lq (p # ps) res = augment lq ps (map_set (ident p) p res)"
  using assms by (simp add: Let_def)

text \<open>The pass raises nothing when every product has a name, and adds products of the
  snapshot only.\<close>

lemma augment_total:
  "\<forall>p \<in> set ps. name p \<noteq> None \<Longrightarrow>
   \<exists>r. augment lq ps res = Inr r \<and> snd ` set r \<subseteq> snd ` set res \<union> set ps"
proof (induction ps arbitrary: res)
  case Nil
  show ?case by simp
next
  case (Cons p ps)
  then obtain nm where nm: "name p = Some nm" by auto
  have all: "\<forall>p \<in> set ps. name p \<noteq> None" using Cons.prems by simp
  consider (skip) "augment lq (p # ps) res = augment lq ps res"
    | (add) "augment lq (p # ps) res = augment lq ps (map_set (ident p) p res)"
    using augment_cases [OF nm] by blast
  then show ?case
  proof cases
    case skip
    from Cons.IH [OF all, of res] obtain r
      where r: "augment lq ps res = Inr r" "snd ` set r \<subseteq> snd ` set res \<union> set ps"
      by blast
    from r(2) have "snd ` set r \<subseteq> snd ` set res \<union> set (p # ps)" by auto
    with r(1) skip show ?thesis by simp
  next
    case add
    from Cons.IH [OF all, of "map_set (ident p) p res"] obtain r
      where r: "augment lq ps (map_set (ident p) p res) = Inr r"
        "snd ` set r \<subseteq> snd ` set (map_set (ident p) p res) \<union> set ps"
      by blast
    from r(2) map_set_values [of "ident p" p res]
    have "snd ` set r \<subseteq> snd ` set res \<union> set (p # ps)" by auto
    with r(1) add show ?thesis by simp
  qed
qed

subsection \<open>Scoring\<close>

lemma calculateScore_Inr: "name p = Some nm \<Longrightarrow> \<exists>s. calculateScore p q = Inr s"
  by (simp add: calculateScore_def Let_def)

lemma calculateScore_score_of:
  "name p \<noteq> None \<Longrightarrow> calculateScore p q = Inr (score_of q p)"
  using calculateScore_Inr [of p _ q] by (auto simp: score_of_def)

lemma score_all_map:
  "\<forall>p \<in> set ps. name p \<noteq> None \<Longrightarrow> score_all q ps = Inr (map (with_score q) ps)"
  by (induction ps) (simp_all add: calculateScore_score_of with_score_def)

subsection \<open>Slicing\<close>

lemma slice0_zero [simp]: "slice0 xs (Finite 0) = []"
  by simp

subsection \<open>The shape of search\<close>

lemma search_blank: "trim q = [] \<Longrightarrow> search lc e q l = Inr []"
  by (simp add: search_def)

lemma search_Inr:
  assumes "trim q \<noteq> []" "candidates e (trim q) lim = Inr res"
    and "\<forall>p \<in> snd ` set res. name p \<noteq> None"
  shows "search lc e q (Some lim) =
     Inr (slice0 (array_sort (compare_scored lc) (map (with_score (trim q)) (map snd res))) lim)"
proof -
  have "q \<noteq> []" using assms(1) by (auto simp: trim_def)
  moreover have "score_all (trim q) (map snd res) = Inr (map (with_score (trim q)) (map snd res))"
    by (rule score_all_map) (use assms(3) in auto)
  ultimately show ?thesis using assms(1,2) by (simp add: search_def)
qed

lemma candidates_no_augment:
  "\<not> size_lt (length (trie_candidates e tq)) lim \<Longrightarrow>
   candidates e tq lim = Inr (trie_candidates e tq)"
  by (simp add: candidates_def Let_def)

lemma candidates_built:
  assumes "e = snd (buildIndex ps e0)" "\<forall>p \<in> set ps. name p \<noteq> None"
  shows "\<exists>res. candidates e tq lim = Inr res \<and> snd ` set res \<subseteq> set ps"
proof -
  have tc: "snd ` set (trie_candidates e tq) \<subseteq> set ps"
    using trie_candidates_values [of e tq] buildIndex_trie [of ps e0 tq] assms(1) by auto
  show ?thesis
  proof (cases "size_lt (length (trie_candidates e tq)) lim")
    case False
    with tc show ?thesis by (simp add: candidates_no_augment)
  next
    case True
    from augment_total [OF assms(2), of "toLowerCase tq" "trie_candidates e tq"] obtain r
      where r: "augment (toLowerCase tq) ps (trie_candidates e tq) = Inr r"
        "snd ` set r \<subseteq> snd ` set (trie_candidates e tq) \<union> set ps"
      by blast
    from r(2) tc have "snd ` set r \<subseteq> set ps" by blast
    moreover have "candidates e tq lim = Inr r"
      using True r(1) by (simp add: candidates_def Let_def assms(1) buildIndex_products)
    ultimately show ?thesis by blast
  qed
qed

subsection \<open>The default limit\<close>

text \<open>
  Claim C10. When the argument \<open>limit\<close> is missing, \<open>search(query)\<close> is
  \<open>search(query, 10)\<close>, and it returns at most 10 results.
\<close>

theorem search_default_limit:
  "search lc e q None = search lc e q (Some (Finite 10))
   \<and> (\<forall>rs. search lc e q None = Inr rs \<longrightarrow> length rs \<le> 10)"
  by (auto simp: search_def Let_def split: sum.splits if_splits)

text \<open>Scenario B of the specification, without a limit.\<close>

theorem search_default_limit_witness:
  "search localeCompare_root (snd (buildIndex [coffee_maker] new_SearchEngine)) ''cofee'' None
     = Inr [\<lparr>item = coffee_maker, searchScore = 10\<rparr>]
   \<and> search localeCompare_root (snd (buildIndex [coffee_maker] new_SearchEngine)) ''cofee''
       (Some (Finite 10)) = Inr [\<lparr>item = coffee_maker, searchScore = 10\<rparr>]
   \<and> length [\<lparr>item = coffee_maker, searchScore = 10\<rparr>] \<le> 10"
proof -
  let ?e = "snd (buildIndex [coffee_maker] new_SearchEngine)"
  have v: "search localeCompare_root ?e ''cofee'' None
             = Inr [\<lparr>item = coffee_maker, searchScore = 10\<rparr>]"
    by code_simp
  from search_default_limit [of localeCompare_root ?e "''cofee''"] v show ?thesis
    by (metis (no_types, lifting))
qed

subsection \<open>Rebuilding the index\<close>

lemma buildIndex_replaces: "buildIndex ps e = buildIndex ps e'"
  by (cases e; cases e') (simp add: buildIndex_def)

text \<open>
  Claim C7. \<open>buildIndex\<close> is idempotent: building the index of a product list twice
  leaves the engine as building it once does, so every search returns the same results
  in both situations. A call replaces the Trie, the inverted index and the product
  snapshot as a whole: the engine it returns does not depend on the engine before.
\<close>

theorem buildIndex_idempotent:
  "buildIndex ps (snd (buildIndex ps e)) = buildIndex ps e
   \<and> search lc (snd (buildIndex ps (snd (buildIndex ps e)))) q l
       = search lc (snd (buildIndex ps e)) q l
   \<and> buildIndex ps e = buildIndex ps e'
   \<and> products (snd (buildIndex ps e)) = ps"
  using buildIndex_replaces [of ps "snd (buildIndex ps e)" e] buildIndex_replaces [of ps e e']
    buildIndex_products [of ps e]
  by simp

text \<open>Scenario B after two builds: the same result as after one.\<close>

theorem buildIndex_idempotent_witness:
  "search localeCompare_root
     (snd (buildIndex [coffee_maker] (snd (buildIndex [coffee_maker] new_SearchEngine))))
     ''cofee'' None
   = search localeCompare_root (snd (buildIndex [coffee_maker] new_SearchEngine)) ''cofee'' None"
  using buildIndex_idempotent [of "[coffee_maker]" new_SearchEngine localeCompare_root
      "''cofee''" None]
  by (rule conjunct1 [OF conjunct2])

subsection \<open>Exceptions\<close>

lemma trie_candidates_named:
  assumes "e = snd (buildIndex ps e0)"
  shows "\<forall>p \<in> snd ` set (trie_candidates e tq). name p \<noteq> None"
  using trie_candidates_values [of e tq] buildIndex_trie [of ps e0 tq] assms by blast

lemma search_built:
  assumes "e = snd (buildIndex ps e0)" "\<forall>p \<in> set ps. name p \<noteq> None"
  shows "\<exists>rs. search lc e q l = Inr rs"
proof (cases "trim q = []")
  case True
  then show ?thesis by (simp add: search_blank)
next
  case False
  define lim where "lim = (case l of None \<Rightarrow> Finite 10 | Some l' \<Rightarrow> l')"
  have l: "search lc e q l = search lc e q (Some lim)"
    by (simp add: search_def lim_def split: option.splits)
  from candidates_built [OF assms, of "trim q" lim] obtain res
    where res: "candidates e (trim q) lim = Inr res" "snd ` set res \<subseteq> set ps"
    by blast
  have "\<forall>p \<in> snd ` set res. name p \<noteq> None" using res(2) assms(2) by blast
  from search_Inr [OF False res(1) this, of lc] show ?thesis by (simp add: l)
qed

lemma slice0_Nil [simp]: "slice0 [] lim = []"
  by (cases lim) simp_all

lemma search_new: "search lc new_SearchEngine q l = Inr []"
proof (cases "trim q = []")
  case True
  then show ?thesis by (simp add: search_blank)
next
  case False
  then have "q \<noteq> []" by (auto simp: trim_def)
  have tc: "trie_candidates new_SearchEngine tq = []" for tq
    by (simp add: trie_candidates_def new_SearchEngine_def trie_search_def)
  have "candidates new_SearchEngine tq lim = Inr []" for tq lim
    by (simp add: candidates_def tc Let_def) (simp add: new_SearchEngine_def)
  with False \<open>q \<noteq> []\<close> show ?thesis
    by (simp add: search_def array_sort_def split: option.splits limit.splits)
qed

text \<open>
  Claim C9, as the code has it. For every product list whose records all have a name,
  \<open>buildIndex\<close> raises no exception, and \<open>search\<close> on the engine it leaves raises none
  for any query and any limit (an unknown query gives the empty sequence at worst); nor
  does \<open>search\<close> on a new engine. A record without an identifier raises nothing
  either. Nothing guards a record without a name.
\<close>

theorem buildIndex_search_no_exception:
  assumes "\<forall>p \<in> set ps. name p \<noteq> None"
  shows "fst (buildIndex ps e0) = None
       \<and> (\<exists>rs. search lc (snd (buildIndex ps e0)) q l = Inr rs)
       \<and> search lc new_SearchEngine q l = Inr []"
  using buildIndex_fst [of ps e0] search_built [OF refl assms, of lc e0 q l] search_new [of lc q l]
    assms
  by blast

text \<open>A catalog with two records without identifier, and a query that matches nothing.\<close>

theorem buildIndex_search_no_exception_witness:
  "fst (buildIndex [unidentified, unidentified, smart_phone] new_SearchEngine) = None
   \<and> search localeCompare_root
        (snd (buildIndex [unidentified, unidentified, smart_phone] new_SearchEngine))
        ''zzz'' None = Inr []"
proof -
  have names: "\<forall>p \<in> set [unidentified, unidentified, smart_phone]. name p \<noteq> None"
    by (simp add: unidentified_def smart_phone_def)
  have "search localeCompare_root
        (snd (buildIndex [unidentified, unidentified, smart_phone] new_SearchEngine))
        ''zzz'' None = Inr []"
    by code_simp
  with buildIndex_search_no_exception [OF names, of new_SearchEngine] show ?thesis
    by blast
qed

text \<open>The claim as stated fails on a record without a name: \<open>buildIndex\<close> raises
  \<open>TypeError\<close>, and so does a later \<open>search\<close> that reaches the augmentation pass.\<close>

theorem buildIndex_nameless_counterexample:
  "fst (buildIndex [nameless] new_SearchEngine) = Some TypeError
   \<and> search localeCompare_root (snd (buildIndex [nameless] new_SearchEngine)) ''a'' None
       = Inl TypeError"
  by code_simp

subsection \<open>Limits outside the positive integers\<close>

lemma search_no_augment:
  assumes "e = snd (buildIndex ps e0)" "trim q \<noteq> []"
    and "\<not> size_lt (length (trie_candidates e (trim q))) lim"
  shows "search lc e q (Some lim) =
     Inr (slice0 (array_sort (compare_scored lc)
            (map (with_score (trim q)) (map snd (trie_candidates e (trim q))))) lim)"
  by (rule search_Inr [OF assms(2) candidates_no_augment [OF assms(3)]
        trie_candidates_named [OF assms(1)]])

lemma array_sort_length [simp]: "length (array_sort cmp xs) = length xs"
proof -
  have "length (insort_by cmp x ys) = Suc (length ys)" for x and ys :: "'a list"
    by (induction ys) simp_all
  then show ?thesis
    unfolding array_sort_def by (induction xs) simp_all
qed

lemma search_limit_cases:
  assumes "e = snd (buildIndex ps e0)"
  shows "search lc e q (Some (Finite 0)) = Inr []
       \<and> search lc e q (Some NaN) = Inr []
       \<and> search lc e q (Some NegInfinity) = Inr []
       \<and> (n < 0 \<and> trim q \<noteq> [] \<longrightarrow>
            search lc e q (Some (Finite n)) =
              Inr (let ranked = array_sort (compare_scored lc)
                         (map (with_score (trim q)) (map snd (trie_candidates e (trim q))))
                   in take (length ranked - nat (- n)) ranked))
       \<and> (trim q = [] \<longrightarrow> search lc e q l = Inr [])"
proof (cases "trim q = []")
  case True
  then show ?thesis by (simp add: search_blank)
next
  case False
  have "search lc e q (Some (Finite 0)) = Inr []"
    using search_no_augment [OF assms False, of "Finite 0" lc] by simp
  moreover have "search lc e q (Some NaN) = Inr []"
    using search_no_augment [OF assms False, of NaN lc] by simp
  moreover have "search lc e q (Some NegInfinity) = Inr []"
    using search_no_augment [OF assms False, of NegInfinity lc] by simp
  moreover have "search lc e q (Some (Finite n)) =
              Inr (let ranked = array_sort (compare_scored lc)
                         (map (with_score (trim q)) (map snd (trie_candidates e (trim q))))
                   in take (length ranked - nat (- n)) ranked)" if "n < 0"
  proof -
    have "nat (int k + n) = k - nat (- n)" for k using that by linarith
    then show ?thesis
      using search_no_augment [OF assms False, of "Finite n" lc] that by (simp add: Let_def)
  qed
  ultimately show ?thesis using False by blast
qed

lemma search_limit_infinite:
  assumes "e = snd (buildIndex ps e0)" "\<forall>p \<in> set ps. name p \<noteq> None" "trim q \<noteq> []"
  shows "\<exists>res. candidates e (trim q) PosInfinity = Inr res
           \<and> search lc e q (Some PosInfinity) =
               Inr (array_sort (compare_scored lc) (map (with_score (trim q)) (map snd res)))"
proof -
  from candidates_built [OF assms(1,2), of "trim q" PosInfinity] obtain res
    where res: "candidates e (trim q) PosInfinity = Inr res" "snd ` set res \<subseteq> set ps"
    by blast
  have "\<forall>p \<in> snd ` set res. name p \<noteq> None" using res(2) assms(2) by blast
  from search_Inr [OF assms(3) res(1) this, of lc] res(1) show ?thesis by simp
qed

text \<open>
  Claim C6, as the code has it. On an indexed catalog, \<open>search(q, 0)\<close> returns the
  empty sequence, and so does a limit of \<open>NaN\<close> or of minus infinity; none raises an
  exception. A negative limit \<open>-k\<close> is not clamped to zero: no augmentation runs, and
  the result is the ranked Trie candidates without their last \<open>k\<close> elements, which is
  empty only when there are at most \<open>k\<close> of them. A limit of plus infinity bounds
  nothing: all ranked candidates are returned.
\<close>

theorem search_limit_not_positive:
  assumes "e = snd (buildIndex ps e0)"
  shows "search lc e q (Some (Finite 0)) = Inr []
       \<and> search lc e q (Some NaN) = Inr []
       \<and> search lc e q (Some NegInfinity) = Inr []
       \<and> (n < 0 \<and> trim q \<noteq> [] \<longrightarrow>
            search lc e q (Some (Finite n)) =
              Inr (let ranked = array_sort (compare_scored lc)
                         (map (with_score (trim q)) (map snd (trie_candidates e (trim q))))
                   in take (length ranked - nat (- n)) ranked))
       \<and> (trim q = [] \<longrightarrow> search lc e q l = Inr [])
       \<and> ((\<forall>p \<in> set ps. name p \<noteq> None) \<and> trim q \<noteq> [] \<longrightarrow>
            (\<exists>res. candidates e (trim q) PosInfinity = Inr res
               \<and> search lc e q (Some PosInfinity) =
                   Inr (array_sort (compare_scored lc)
                          (map (with_score (trim q)) (map snd res)))))"
  using search_limit_cases [OF assms, of lc q n l] search_limit_infinite [OF assms, of q lc]
  by blast

text \<open>Scenario C of the specification with limits 0 and -2: two candidates, none
  returned.\<close>

theorem search_limit_not_positive_witness:
  "search localeCompare_root (snd (buildIndex [smart_watch, smart_phone] new_SearchEngine))
     ''smart'' (Some (Finite 0)) = Inr []
   \<and> search localeCompare_root (snd (buildIndex [smart_watch, smart_phone] new_SearchEngine))
     ''smart'' (Some (Finite (- 2))) = Inr []"
proof -
  let ?e = "snd (buildIndex [smart_watch, smart_phone] new_SearchEngine)"
  have t: "trim ''smart'' \<noteq> []" by code_simp
  have neg: "(- 2 :: int) < 0" by simp
  have len: "length (trie_candidates ?e (trim ''smart'')) = 2" by code_simp
  from search_limit_not_positive [OF refl, of localeCompare_root "[smart_watch, smart_phone]"
      new_SearchEngine "''smart''" "- 2"] t neg len
  show ?thesis by (simp add: Let_def)
qed

text \<open>The claim as stated fails at the limit -1: of the two candidates of scenario C,
  one is returned.\<close>

theorem search_negative_limit_counterexample:
  "search localeCompare_root (snd (buildIndex [smart_watch, smart_phone] new_SearchEngine))
     ''smart'' (Some (Finite (- 1))) = Inr [\<lparr>item = smart_phone, searchScore = 115\<rparr>]
   \<and> search localeCompare_root (snd (buildIndex [smart_watch, smart_phone] new_SearchEngine))
     ''smart'' (Some (Finite (- 1))) \<noteq> Inr []"
proof -
  have "search localeCompare_root (snd (buildIndex [smart_watch, smart_phone] new_SearchEngine))
     ''smart'' (Some (Finite (- 1))) = Inr [\<lparr>item = smart_phone, searchScore = 115\<rparr>]"
    by code_simp
  then show ?thesis by simp
qed

subsection \<open>The augmentation pass\<close>

lemma code_test_admission:
  "(isFuzzyMatch lq (toLowerCase nm) \<or> isPartialMatch lq (toLowerCase nm) (toLowerCase c))
   \<longleftrightarrow> ((\<exists>w \<in> set (pieces (toLowerCase nm)). distance lq w \<le> max 1 (length lq div 3))
        \<or> sublist lq (toLowerCase nm) \<or> sublist lq (toLowerCase c))"
  by (simp add: isFuzzyMatch_def isPartialMatch_def list_ex_iff includes_str_sublist
        split_ws_pieces distance_eq)

lemma augment_step:
  assumes "name p = Some nm"
  shows "augment lq (p # ps) res =
     (if map_has (ident p) res then augment lq ps res
      else if admission_test pieces lq p then augment lq ps (map_set (ident p) p res)
      else augment lq ps res)"
  using assms code_test_admission [of lq nm "or_empty (category p)"]
  by (simp add: admission_test_def Let_def or_empty_def)

text \<open>The pass appends the products of the snapshot that are not yet candidates and pass
  the test, in the order of the snapshot; of several with one identifier, the first.\<close>

lemma augment_first:
  assumes "\<forall>p \<in> set ps. name p \<noteq> None"
  shows "augment lq ps res =
     Inr (res @ map (\<lambda>p. (ident p, p))
                  (first_by_ident
                     (filter (\<lambda>p. \<not> map_has (ident p) res \<and> admission_test pieces lq p) ps)))"
  using assms
proof (induction ps arbitrary: res)
  case Nil
  show ?case by simp
next
  case (Cons p ps)
  then obtain nm where nm: "name p = Some nm" by auto
  have all: "\<forall>p \<in> set ps. name p \<noteq> None" using Cons.prems by auto
  show ?case
  proof (cases "\<not> map_has (ident p) res \<and> admission_test pieces lq p")
    case False
    with Cons.IH [OF all, of res] show ?thesis
      unfolding augment_step [OF nm] by auto
  next
    case True
    let ?res = "res @ [(ident p, p)]"
    let ?ok = "\<lambda>p'. \<not> map_has (ident p') res \<and> admission_test pieces lq p'"
    have same: "filter (\<lambda>p'. \<not> map_has (ident p') ?res \<and> admission_test pieces lq p') ps =
                filter (\<lambda>q. ident q \<noteq> ident p) (filter ?ok ps)"
      by (induction ps) (auto simp: map_has_def)
    from True have "augment lq (p # ps) res = augment lq ps ?res"
      unfolding augment_step [OF nm] by (simp add: map_set_new)
    also have "\<dots> = Inr (?res @ map (\<lambda>p. (ident p, p))
                  (first_by_ident
                     (filter (\<lambda>p'. \<not> map_has (ident p') ?res \<and> admission_test pieces lq p') ps)))"
      by (rule Cons.IH [OF all])
    finally show ?thesis using True by (simp add: same)
  qed
qed

lemma first_by_ident_distinct: "distinct (map ident ps) \<Longrightarrow> first_by_ident ps = ps"
proof (induction ps)
  case Nil
  show ?case by simp
next
  case (Cons p ps)
  have "ident p \<notin> ident ` set ps" using Cons.prems by simp
  then have "\<forall>q \<in> set ps. ident q \<noteq> ident p" by (metis imageI)
  then have "filter (\<lambda>q. ident q \<noteq> ident p) ps = ps" by (simp add: filter_id_conv)
  with Cons show ?case by simp
qed

text \<open>
  Claim C5, as the code has it. For every query (trimmed, not empty), when the number
  of deduplicated Trie candidates is below the limit, the candidates are the Trie
  candidates followed by the products of the whole snapshot, in its order, that are
  not yet candidates and pass the test: a word of the lowercased name within distance
  \<open>max(1, floor(length / 3))\<close> of the lowercased query, or the lowercased name or
  category containing the lowercased query. The words of the name are the pieces that
  \<open>split(/\s+/)\<close> returns: the whitespace-tokens, and an empty piece in front of a
  leading white space, after a trailing white space, and for the empty string. A
  product is a candidate by its identifier: of several products with one identifier
  that pass, the first is taken; with unique identifiers every one is. When the number
  of Trie candidates has reached the limit, they are the candidates. (The products of
  the snapshot have their names.)
\<close>

theorem augmentation_pass:
  assumes "\<forall>p \<in> set (products e). name p \<noteq> None"
  shows "(\<not> size_lt (length (trie_candidates e tq)) lim \<longrightarrow>
            candidates e tq lim = Inr (trie_candidates e tq))
       \<and> (size_lt (length (trie_candidates e tq)) lim \<longrightarrow>
            candidates e tq lim =
              Inr (trie_candidates e tq
                   @ map (\<lambda>p. (ident p, p))
                       (first_by_ident
                          (filter (\<lambda>p. \<not> map_has (ident p) (trie_candidates e tq)
                                       \<and> admission_test pieces (toLowerCase tq) p)
                             (products e)))))
       \<and> (distinct (map ident (products e)) \<longrightarrow>
            first_by_ident
              (filter (\<lambda>p. \<not> map_has (ident p) (trie_candidates e tq)
                           \<and> admission_test pieces (toLowerCase tq) p)
                 (products e))
            = filter (\<lambda>p. \<not> map_has (ident p) (trie_candidates e tq)
                          \<and> admission_test pieces (toLowerCase tq) p)
                (products e))"
  using augment_first [OF assms, of "toLowerCase tq" "trie_candidates e tq"]
    first_by_ident_distinct [OF distinct_map_filter]
  by (simp add: candidates_def Let_def)

text \<open>A catalog with a Trie candidate for "phone", which the pass leaves where it is, a
  product that the pass admits and one that it does not; and the limit 1, which the
  Trie candidate reaches.\<close>

theorem augmentation_pass_witness:
  "trie_candidates (snd (buildIndex [smart_phone, headphone, coffee_maker] new_SearchEngine))
      ''phone'' = [(Some 2, smart_phone)]
   \<and> candidates (snd (buildIndex [smart_phone, headphone, coffee_maker] new_SearchEngine))
      ''phone'' (Finite 10) = Inr [(Some 2, smart_phone), (Some 3, headphone)]
   \<and> candidates (snd (buildIndex [smart_phone, headphone, coffee_maker] new_SearchEngine))
      ''phone'' (Finite 1) = Inr [(Some 2, smart_phone)]
   \<and> admission_test pieces ''phone'' smart_phone
   \<and> admission_test pieces ''phone'' headphone
   \<and> \<not> admission_test pieces ''phone'' coffee_maker"
proof -
  let ?ps = "[smart_phone, headphone, coffee_maker]"
  let ?e = "snd (buildIndex ?ps new_SearchEngine)"
  have pr: "products ?e = ?ps" by (simp add: buildIndex_products)
  have 1: "\<forall>p \<in> set (products ?e). name p \<noteq> None"
    unfolding pr by (simp add: smart_phone_def headphone_def coffee_maker_def)
  have tc: "trie_candidates ?e ''phone'' = [(Some 2, smart_phone)]" by code_simp
  have low: "toLowerCase ''phone'' = ''phone''" by code_simp
  have has: "map_has (ident smart_phone) [(Some 2, smart_phone)]"
    "\<not> map_has (ident headphone) [(Some 2, smart_phone)]"
    "\<not> map_has (ident coffee_maker) [(Some 2, smart_phone)]"
    by (simp_all add: map_has_def smart_phone_def headphone_def coffee_maker_def)
  have adm: "admission_test pieces ''phone'' smart_phone"
    "admission_test pieces ''phone'' headphone"
    "\<not> admission_test pieces ''phone'' coffee_maker"
    unfolding admission_test_def distance_eq sublist_includes_str by code_simp+
  have below: "size_lt (length (trie_candidates ?e ''phone'')) (Finite 10)"
    and reached: "\<not> size_lt (length (trie_candidates ?e ''phone'')) (Finite 1)"
    unfolding tc by simp_all
  have ten: "candidates ?e ''phone'' (Finite 10) = Inr [(Some 2, smart_phone), (Some 3, headphone)]"
    using augmentation_pass [OF 1, of "''phone''" "Finite 10"] below
    unfolding pr tc low using has adm by (simp add: headphone_def)
  have one: "candidates ?e ''phone'' (Finite 1) = Inr [(Some 2, smart_phone)]"
    using augmentation_pass [OF 1, of "''phone''" "Finite 1"] reached
    unfolding tc by blast
  from tc ten one adm show ?thesis by simp
qed

text \<open>
  The claim as stated, on the whitespace-tokens alone, fails on a name that starts with
  a space. For the name " Zebra Mug" and the query "q" no token is within distance 1
  and neither name nor category contains the query; the code compares with the empty
  piece as well, at distance 1, and admits the product.
\<close>

theorem augmentation_empty_token_counterexample:
  "trie_candidates (snd (buildIndex [zebra_mug] new_SearchEngine)) ''q'' = []
   \<and> candidates (snd (buildIndex [zebra_mug] new_SearchEngine)) ''q'' (Finite 10)
      = Inr [(Some 1, zebra_mug)]
   \<and> \<not> admission_test runs (toLowerCase ''q'') zebra_mug"
proof -
  let ?e = "snd (buildIndex [zebra_mug] new_SearchEngine)"
  have tc: "trie_candidates ?e ''q'' = []" by code_simp
  have cand: "candidates ?e ''q'' (Finite 10) = Inr [(Some 1, zebra_mug)]" by code_simp
  have low: "toLowerCase ''q'' = ''q''"
    "toLowerCase (or_empty (name zebra_mug)) = '' zebra mug''"
    "toLowerCase (or_empty (category zebra_mug)) = []"
    by code_simp+
  have tok: "runs '' zebra mug'' = [''zebra'', ''mug'']" by code_simp
  have dist: "levenshteinDistance ''q'' ''zebra'' = 5" "levenshteinDistance ''q'' ''mug'' = 3"
    by code_simp+
  have sub: "\<not> includes_str '' zebra mug'' ''q''" "\<not> includes_str [] ''q''"
    by code_simp+
  have "\<not> admission_test runs (toLowerCase ''q'') zebra_mug"
    unfolding admission_test_def low tok distance_eq sublist_includes_str
    using dist sub by simp
  with tc cand show ?thesis by simp
qed

subsection \<open>Sorting\<close>

lemma consistent_onD:
  assumes "consistent_on A cmp" "a \<in> A" "b \<in> A"
  shows "cmp a b < 0 \<longleftrightarrow> 0 < cmp b a"
    and "c \<in> A \<Longrightarrow> cmp a b \<le> 0 \<Longrightarrow> cmp b c \<le> 0 \<Longrightarrow> cmp a c \<le> 0"
  using assms unfolding consistent_on_def by blast+

lemma consistent_on_zero:
  assumes "consistent_on A cmp" "a \<in> A" "b \<in> A" "cmp a b = 0"
  shows "cmp b a = 0"
  using consistent_onD(1) [OF assms(1,2,3)] consistent_onD(1) [OF assms(1,3,2)] assms(4)
  by linarith

lemma set_insort_by [simp]: "set (insort_by cmp x ys) = insert x (set ys)"
  by (induction ys) auto

lemma mset_insort_by [simp]: "mset (insort_by cmp x ys) = add_mset x (mset ys)"
  by (induction ys) auto

lemma array_sort_Cons: "array_sort cmp (x # xs) = insort_by cmp x (array_sort cmp xs)"
  by (simp add: array_sort_def)

lemma array_sort_Nil [simp]: "array_sort cmp [] = []"
  by (simp add: array_sort_def)

lemma mset_array_sort [simp]: "mset (array_sort cmp xs) = mset xs"
  by (induction xs) (simp_all add: array_sort_Cons)

lemma set_array_sort [simp]: "set (array_sort cmp xs) = set xs"
  by (induction xs) (simp_all add: array_sort_Cons)

lemma sorted_insort_by:
  assumes "consistent_on A cmp" "x \<in> A" "set ys \<subseteq> A"
    and "sorted_wrt (\<lambda>a b. cmp a b \<le> 0) ys"
  shows "sorted_wrt (\<lambda>a b. cmp a b \<le> 0) (insort_by cmp x ys)"
  using assms(3,4)
proof (induction ys)
  case Nil
  show ?case by simp
next
  case (Cons y ys)
  have y: "y \<in> A" and ys: "set ys \<subseteq> A" using Cons.prems(1) by auto
  show ?case
  proof (cases "cmp x y \<le> 0")
    case True
    have "cmp x z \<le> 0" if "z \<in> set ys" for z
    proof -
      have "cmp y z \<le> 0" using Cons.prems(2) that by simp
      moreover have "z \<in> A" using ys that by blast
      ultimately show ?thesis using consistent_onD(2) [OF assms(1,2) y] True by blast
    qed
    with True Cons.prems(2) show ?thesis by simp
  next
    case False
    then have "cmp y x \<le> 0" using consistent_onD(1) [OF assms(1) y assms(2)] by linarith
    moreover have "sorted_wrt (\<lambda>a b. cmp a b \<le> 0) (insort_by cmp x ys)"
      using Cons.IH [OF ys] Cons.prems(2) by simp
    ultimately show ?thesis using False Cons.prems(2) by simp
  qed
qed

lemma sorted_array_sort:
  assumes "consistent_on A cmp" "set xs \<subseteq> A"
  shows "sorted_wrt (\<lambda>a b. cmp a b \<le> 0) (array_sort cmp xs)"
  using assms(2)
proof (induction xs)
  case Nil
  show ?case by simp
next
  case (Cons x xs)
  then have "x \<in> A" "set (array_sort cmp xs) \<subseteq> A" by simp_all
  from sorted_insort_by [OF assms(1) this] Cons show ?case
    by (simp add: array_sort_Cons)
qed

lemma filter_insort_by:
  assumes "consistent_on A cmp" "r \<in> A" "x \<in> A" "set ys \<subseteq> A"
  shows "filter (\<lambda>y. cmp r y = 0) (insort_by cmp x ys) =
         filter (\<lambda>y. cmp r y = 0) (x # ys)"
  using assms(4)
proof (induction ys)
  case Nil
  show ?case by simp
next
  case (Cons y ys)
  have y: "y \<in> A" and ys: "set ys \<subseteq> A" using Cons.prems by auto
  show ?case
  proof (cases "cmp x y \<le> 0")
    case True
    then show ?thesis by simp
  next
    case False
    have "\<not> (cmp r x = 0 \<and> cmp r y = 0)"
    proof
      assume both: "cmp r x = 0 \<and> cmp r y = 0"
      then have "cmp x r = 0" using consistent_on_zero [OF assms(1,2,3)] by simp
      with both have "cmp x y \<le> 0"
        using consistent_onD(2) [OF assms(1,3,2) y] by simp
      with False show False by simp
    qed
    with False Cons.IH [OF ys] show ?thesis by auto
  qed
qed

lemma filter_array_sort:
  assumes "consistent_on A cmp" "r \<in> A" "set xs \<subseteq> A"
  shows "filter (\<lambda>y. cmp r y = 0) (array_sort cmp xs) = filter (\<lambda>y. cmp r y = 0) xs"
  using assms(3)
proof (induction xs)
  case Nil
  show ?case by simp
next
  case (Cons x xs)
  then have "x \<in> A" "set (array_sort cmp xs) \<subseteq> A" by simp_all
  from filter_insort_by [OF assms(1,2) this] Cons show ?case
    by (simp add: array_sort_Cons)
qed

lemma compare_scored_ranks: "compare_scored lc a b \<le> 0 \<longleftrightarrow> ranks_before lc a b"
  by (auto simp: compare_scored_def ranks_before_def display_name_def)

lemma compare_scored_tied: "compare_scored lc a b = 0 \<longleftrightarrow> tied lc a b"
  by (auto simp: compare_scored_def tied_def display_name_def)

lemma consistent_compare_scored:
  assumes "consistent_on N lc"
  shows "consistent_on {r. display_name r \<in> N} (compare_scored lc)"
  unfolding consistent_on_def
proof (intro conjI ballI impI)
  fix a b assume "a \<in> {r. display_name r \<in> N}" "b \<in> {r. display_name r \<in> N}"
  then have ab: "display_name a \<in> N" "display_name b \<in> N" by simp_all
  show "compare_scored lc a b < 0 \<longleftrightarrow> 0 < compare_scored lc b a"
    using consistent_onD(1) [OF assms ab]
    by (auto simp: compare_scored_def display_name_def)
next
  fix a b c
  assume "a \<in> {r. display_name r \<in> N}" "b \<in> {r. display_name r \<in> N}"
    "c \<in> {r. display_name r \<in> N}"
  then have abc: "display_name a \<in> N" "display_name b \<in> N" "display_name c \<in> N"
    by simp_all
  assume "compare_scored lc a b \<le> 0 \<and> compare_scored lc b c \<le> 0"
  then have le: "ranks_before lc a b" "ranks_before lc b c"
    by (simp_all add: compare_scored_ranks)
  have "ranks_before lc a c"
    using le consistent_onD(2) [OF assms abc(1,2,3)]
    unfolding ranks_before_def by auto
  then show "compare_scored lc a c \<le> 0" by (simp add: compare_scored_ranks)
qed

lemma compare_units_swap: "compare_units b a = - compare_units a b"
  by (induction a b rule: compare_units.induct) auto

lemma compare_units_eq: "compare_units a b = 0 \<longleftrightarrow> a = b"
  by (induction a b rule: compare_units.induct) (auto simp: linorder_neq_iff)

lemma compare_units_trans:
  "compare_units a b \<le> 0 \<Longrightarrow> compare_units b c \<le> 0 \<Longrightarrow> compare_units a c \<le> 0"
proof (induction a b arbitrary: c rule: compare_units.induct)
  case 1
  then show ?case by simp
next
  case (2 y ys)
  then show ?case by (cases c) auto
next
  case (3 x xs)
  then show ?case by simp
next
  case (4 x xs y ys)
  show ?case
  proof (cases c)
    case Nil
    with 4 show ?thesis by simp
  next
    case (Cons z zs)
    with "4.prems" "4.IH" [of zs] show ?thesis
      by (auto split: if_splits)
  qed
qed

lemma localeCompare_root_consistent: "consistent_on A localeCompare_root"
  unfolding consistent_on_def
proof (intro conjI ballI impI)
  fix a b
  show "localeCompare_root a b < 0 \<longleftrightarrow> 0 < localeCompare_root b a"
    using compare_units_swap [of "toLowerCase b" "toLowerCase a"] compare_units_swap [of a b]
    by (auto simp: localeCompare_root_def)
next
  fix a b c
  assume "localeCompare_root a b \<le> 0 \<and> localeCompare_root b c \<le> 0"
  then have ab: "localeCompare_root a b \<le> 0" and bc: "localeCompare_root b c \<le> 0" by simp_all
  let ?a = "toLowerCase a" and ?b = "toLowerCase b" and ?c = "toLowerCase c"
  show "localeCompare_root a c \<le> 0"
  proof (cases "?a = ?b")
    case ab_eq: True
    show ?thesis
    proof (cases "?b = ?c")
      case True
      with ab_eq ab bc compare_units_trans [of c b a] show ?thesis
        by (simp add: localeCompare_root_def)
    next
      case False
      with ab_eq bc show ?thesis by (simp add: localeCompare_root_def)
    qed
  next
    case ab_ne: False
    show ?thesis
    proof (cases "?b = ?c")
      case True
      with ab_ne ab show ?thesis by (simp add: localeCompare_root_def)
    next
      case False
      from ab ab_ne have 1: "compare_units ?a ?b \<le> 0" by (simp add: localeCompare_root_def)
      from bc False have 2: "compare_units ?b ?c \<le> 0" by (simp add: localeCompare_root_def)
      have "?a \<noteq> ?c"
      proof
        assume "?a = ?c"
        with 2 have "compare_units ?b ?a \<le> 0" by simp
        with 1 compare_units_swap [of ?b ?a] have "compare_units ?a ?b = 0" by simp
        with ab_ne show False by (simp add: compare_units_eq)
      qed
      with compare_units_trans [OF 1 2] show ?thesis by (simp add: localeCompare_root_def)
    qed
  qed
qed


subsection \<open>Ranking\<close>

lemma with_score_fields [simp]:
  "item (with_score q p) = p" "searchScore (with_score q p) = score_of q p"
  by (simp_all add: with_score_def)

text \<open>
  Claim C2, as the code has it. For every indexed catalog (of products with names),
  every query that is not empty after trimming and every limit \<open>n \<ge> 0\<close>, the result
  of \<open>search\<close> is the first \<open>n\<close> elements of the scored candidates sorted by
  descending score, ties between equal scores being broken by the ascending order that
  the host's \<open>localeCompare\<close> gives the display names (a consistent comparison). The
  sort is stable: candidates that \<open>localeCompare\<close> does not separate either keep their
  order. The result has at most \<open>n\<close> elements, and each element carries the product
  with its computed score.
\<close>

theorem search_ranked:
  assumes "e = snd (buildIndex ps e0)" and "\<forall>p \<in> set ps. name p \<noteq> None"
    and "trim q \<noteq> []" and "0 \<le> n"
    and "consistent_on (set (map (\<lambda>p. or_empty (name p)) ps)) lc"
  shows "\<exists>res. candidates e (trim q) (Finite n) = Inr res
     \<and> (let scoredResults = map (with_score (trim q)) (map snd res);
             ranked = array_sort (compare_scored lc) scoredResults
         in search lc e q (Some (Finite n)) = Inr (take (nat n) ranked)
            \<and> length (take (nat n) ranked) \<le> nat n
            \<and> mset ranked = mset scoredResults
            \<and> sorted_wrt (ranks_before lc) ranked
            \<and> (\<forall>r \<in> set ranked. filter (tied lc r) ranked = filter (tied lc r) scoredResults)
            \<and> (\<forall>r \<in> set ranked. calculateScore (item r) (trim q) = Inr (searchScore r)))"
proof -
  let ?N = "set (map (\<lambda>p. or_empty (name p)) ps)"
  let ?A = "{r. display_name r \<in> ?N}"
  from candidates_built [OF assms(1,2), of "trim q" "Finite n"] obtain res
    where res: "candidates e (trim q) (Finite n) = Inr res" "snd ` set res \<subseteq> set ps"
    by blast
  define scoredResults where "scoredResults = map (with_score (trim q)) (map snd res)"
  define ranked where "ranked = array_sort (compare_scored lc) scoredResults"
  have named: "\<forall>p \<in> snd ` set res. name p \<noteq> None" using res(2) assms(2) by blast
  have cons: "consistent_on ?A (compare_scored lc)"
    by (rule consistent_compare_scored [OF assms(5)])
  have inA: "set scoredResults \<subseteq> ?A"
    using res(2) by (auto simp: scoredResults_def display_name_def)
  have 1: "search lc e q (Some (Finite n)) = Inr (take (nat n) ranked)"
    using search_Inr [OF assms(3) res(1) named, of lc] assms(4)
    by (simp add: ranked_def scoredResults_def)
  have 2: "length (take (nat n) ranked) \<le> nat n" by simp
  have 3: "mset ranked = mset scoredResults" by (simp add: ranked_def)
  have "sorted_wrt (\<lambda>a b. compare_scored lc a b \<le> 0) ranked"
    unfolding ranked_def by (rule sorted_array_sort [OF cons inA])
  then have 4: "sorted_wrt (ranks_before lc) ranked"
    by (simp add: compare_scored_ranks)
  have 5: "filter (tied lc r) ranked = filter (tied lc r) scoredResults" if "r \<in> set ranked" for r
  proof -
    have "r \<in> ?A" using that inA by (auto simp: ranked_def)
    from filter_array_sort [OF cons this inA] show ?thesis
      by (simp add: ranked_def compare_scored_tied)
  qed
  have 6: "calculateScore (item r) (trim q) = Inr (searchScore r)" if "r \<in> set ranked" for r
  proof -
    from that obtain p where p: "p \<in> snd ` set res" "r = with_score (trim q) p"
      by (auto simp: ranked_def scoredResults_def)
    with named have "name p \<noteq> None" by blast
    then show ?thesis using p(2) by (simp add: calculateScore_score_of)
  qed
  from res(1) 1 2 3 4 5 6 show ?thesis
    unfolding Let_def ranked_def scoredResults_def by (intro exI [of _ res]) blast
qed



text \<open>Scenario C of the specification: equal scores, "Smart Phone" before "Smart Watch".\<close>

theorem search_ranked_witness:
  "search localeCompare_root (snd (buildIndex [smart_watch, smart_phone] new_SearchEngine))
     ''smart'' (Some (Finite 10))
   = Inr [\<lparr>item = smart_phone, searchScore = 115\<rparr>, \<lparr>item = smart_watch, searchScore = 115\<rparr>]
   \<and> sorted_wrt (ranks_before localeCompare_root)
       [\<lparr>item = smart_phone, searchScore = 115\<rparr>, \<lparr>item = smart_watch, searchScore = 115\<rparr>]"
proof -
  let ?ps = "[smart_watch, smart_phone]"
  let ?e = "snd (buildIndex ?ps new_SearchEngine)"
  let ?out = "[\<lparr>item = smart_phone, searchScore = 115\<rparr>, \<lparr>item = smart_watch, searchScore = 115\<rparr>]"
  have 1: "\<forall>p \<in> set ?ps. name p \<noteq> None" by (simp add: smart_watch_def smart_phone_def)
  have 2: "trim ''smart'' \<noteq> []" by code_simp
  have 3: "(0::int) \<le> 10" by simp
  have 4: "consistent_on (set (map (\<lambda>p. or_empty (name p)) ?ps)) localeCompare_root"
    by (rule localeCompare_root_consistent)
  have v: "search localeCompare_root ?e ''smart'' (Some (Finite 10)) = Inr ?out"
    by code_simp
  from search_ranked [OF refl 1 2 3 4, of new_SearchEngine] obtain ranked
    where r: "search localeCompare_root ?e ''smart'' (Some (Finite 10)) = Inr (take (nat 10) ranked)"
      "sorted_wrt (ranks_before localeCompare_root) ranked"
    unfolding Let_def by blast
  from r(1) v have "take (nat 10) ranked = ?out" by simp
  moreover have "sorted_wrt (ranks_before localeCompare_root) (take (nat 10) ranked)"
    using r(2) by (rule sorted_wrt_take)
  ultimately show ?thesis using v by simp
qed

text \<open>
  The claim as stated, with case-insensitive lexicographic order as the tie-break,
  fails on two names that differ in case only. Case-insensitive order does not
  separate "Apple" and "apple", so a stable sort would keep the candidates in their
  order, "Apple" first; \<open>localeCompare\<close> puts "apple" first.
\<close>

theorem search_case_tie_counterexample:
  "search localeCompare_root (snd (buildIndex [apple_upper, apple_lower] new_SearchEngine))
     ''apple'' (Some (Finite 10))
   = Inr [\<lparr>item = apple_lower, searchScore = 215\<rparr>, \<lparr>item = apple_upper, searchScore = 215\<rparr>]
   \<and> candidates (snd (buildIndex [apple_upper, apple_lower] new_SearchEngine)) ''apple'' (Finite 10)
     = Inr [(Some 1, apple_upper), (Some 2, apple_lower)]
   \<and> ci_compare ''Apple'' ''apple'' = 0
   \<and> search localeCompare_root (snd (buildIndex [apple_upper, apple_lower] new_SearchEngine))
       ''apple'' (Some (Finite 10))
     \<noteq> Inr (take 10 (array_sort (compare_scored ci_compare)
              (map (with_score ''apple'') [apple_upper, apple_lower])))"
proof -
  let ?e = "snd (buildIndex [apple_upper, apple_lower] new_SearchEngine)"
  have out: "search localeCompare_root ?e ''apple'' (Some (Finite 10))
     = Inr [\<lparr>item = apple_lower, searchScore = 215\<rparr>, \<lparr>item = apple_upper, searchScore = 215\<rparr>]"
    by code_simp
  have cands: "candidates ?e ''apple'' (Finite 10)
     = Inr [(Some 1, apple_upper), (Some 2, apple_lower)]"
    by code_simp
  have tie: "ci_compare ''Apple'' ''apple'' = 0"
    by code_simp
  have claimed: "take 10 (array_sort (compare_scored ci_compare)
        (map (with_score ''apple'') [apple_upper, apple_lower]))
     = [\<lparr>item = apple_upper, searchScore = 215\<rparr>, \<lparr>item = apple_lower, searchScore = 215\<rparr>]"
    by code_simp
  have differ: "apple_lower \<noteq> apple_upper"
    by (simp add: apple_lower_def apple_upper_def)
  show ?thesis
    unfolding out claimed using cands tie differ by simp
qed

end
